theory Spec2Isabelle
  imports Main "HOL-Library.AList"
begin

section \<open>Node's \<open>path\<close> module, POSIX flavour\<close>

text \<open>
  \<open>bin/optimize.js\<close> computes every location with \<open>path.join\<close>, \<open>path.dirname\<close>,
  \<open>path.extname\<close> and \<open>path.basename\<close>. The functions below give their results on
  POSIX paths (separator \<open>/\<close>), with strings as character lists.
\<close>

text \<open>\<open>s.split(c)\<close>: the segments between separators, empty ones included.\<close>

fun split_on :: "char \<Rightarrow> string \<Rightarrow> string list" where
  "split_on sep [] = [[]]"
| "split_on sep (c # cs) =
     (if c = sep then [] # split_on sep cs
      else (case split_on sep cs of [] \<Rightarrow> [[c]] | w # ws \<Rightarrow> (c # w) # ws))"

abbreviation split_slash :: "string \<Rightarrow> string list" where
  "split_slash \<equiv> split_on (CHR ''/'')"

text \<open>\<open>segments.join('/')\<close>.\<close>

fun join_slash :: "string list \<Rightarrow> string" where
  "join_slash [] = []"
| "join_slash [x] = x"
| "join_slash (x # y # ys) = x @ CHR ''/'' # join_slash (y # ys)"

text \<open>
  \<open>normalizeString\<close>: one step per segment. Empty segments and \<open>.\<close> are dropped,
  \<open>..\<close> removes the segment before it when there is one that is not itself \<open>..\<close>, and
  is kept only where the path may climb above its start (a relative path).
\<close>

definition normalize_step :: "bool \<Rightarrow> string list \<Rightarrow> string \<Rightarrow> string list" where
  "normalize_step allowAboveRoot res seg =
     (if seg = [] \<or> seg = ''.'' then res
      else if seg = ''..'' then
        (if res \<noteq> [] \<and> last res \<noteq> ''..'' then butlast res
         else if allowAboveRoot then res @ [''..''] else res)
      else res @ [seg])"

definition normalizeString :: "string \<Rightarrow> bool \<Rightarrow> string list" where
  "normalizeString path allowAboveRoot =
     foldl (normalize_step allowAboveRoot) [] (split_slash path)"

definition path_normalize :: "string \<Rightarrow> string" where
  "path_normalize path =
     (if path = [] then ''.''
      else
        let isAbsolute = (hd path = CHR ''/'');
            trailingSeparator = (last path = CHR ''/'');
            res = normalizeString path (\<not> isAbsolute)
        in if res = [] then
             (if isAbsolute then ''/'' else if trailingSeparator then ''./'' else ''.'')
           else (if isAbsolute then ''/'' else []) @ join_slash res
                @ (if trailingSeparator then ''/'' else []))"

text \<open>\<open>path.join(...args)\<close>: the non-empty arguments joined by \<open>/\<close>, then normalized.\<close>

definition path_join :: "string list \<Rightarrow> string" where
  "path_join args =
     (let joined = filter (\<lambda>arg. arg \<noteq> []) args
      in if joined = [] then ''.'' else path_normalize (join_slash joined))"

text \<open>\<open>s.endsWith(e)\<close>.\<close>

definition endsWith :: "string \<Rightarrow> string \<Rightarrow> bool" where
  "endsWith s e = (length e \<le> length s \<and> drop (length s - length e) s = e)"

text \<open>
  The last segment of a path, trailing separators ignored: what \<open>path.basename(p)\<close>
  returns, and the part of the path \<open>path.extname\<close> looks at.
\<close>

definition last_segment :: "string \<Rightarrow> string" where
  "last_segment path =
     rev (takeWhile (\<lambda>c. c \<noteq> CHR ''/'') (dropWhile (\<lambda>c. c = CHR ''/'') (rev path)))"

text \<open>The path from the start of its last segment on, trailing separators included.\<close>

definition from_last_segment :: "string \<Rightarrow> string" where
  "from_last_segment path =
     last_segment path @ takeWhile (\<lambda>c. c = CHR ''/'') (rev path)"

text \<open>
  \<open>path.dirname(p)\<close>: scanning from the end down to index 1, the separator that ends
  the directory part is the first one met after a character that is not a separator.
\<close>

definition path_dirname :: "string \<Rightarrow> string" where
  "path_dirname path =
     (if path = [] then ''.''
      else
        let hasRoot = (hd path = CHR ''/'');
            upto = dropWhile (\<lambda>c. c \<noteq> CHR ''/'')
                     (dropWhile (\<lambda>c. c = CHR ''/'') (rev (tl path)))
        in if upto = [] then (if hasRoot then ''/'' else ''.'')
           else if hasRoot \<and> length upto = 1 then ''//''
           else take (length upto) path)"

text \<open>
  \<open>path.extname(p)\<close>: from the last \<open>.\<close> of the last segment to its end; empty when
  the segment has no \<open>.\<close>, when its only \<open>.\<close> is its first character, and for \<open>..\<close>.
\<close>

definition path_extname :: "string \<Rightarrow> string" where
  "path_extname path =
     (let name = last_segment path;
          after_dot = takeWhile (\<lambda>c. c \<noteq> CHR ''.'') (rev name)
      in if CHR ''.'' \<notin> set name \<or> name = ''..'' \<or> Suc (length after_dot) = length name
         then []
         else CHR ''.'' # rev after_dot)"

text \<open>
  \<open>path.basename(p, ext)\<close>; an empty \<open>ext\<close> stands for the call with one
  argument. A suffix is removed from the last segment only when the segment is longer
  than it. Node compares the suffix backwards while it scans the segment: a segment that
  ends before the comparison does is returned together with the separators after it.
\<close>

definition path_basename :: "string \<Rightarrow> string \<Rightarrow> string" where
  "path_basename path ext =
     (let name = last_segment path
      in if ext \<noteq> [] \<and> length ext \<le> length path then
           (if ext = path then []
            else if length ext < length name \<and> endsWith name ext
              then take (length name - length ext) name
            else if length name < length ext \<and> endsWith ext name
              then from_last_segment path
            else name)
         else name)"

section \<open>The program \<open>bin/optimize.js\<close>\<close>

subsection \<open>What the program talks to\<close>

text \<open>
  The file system, the directory walk of \<open>glob\<close>, \<open>fs-extra\<close> and the \<open>sharp\<close> codec
  are collaborators of the program. They act on a world \<open>'w\<close> the program never looks
  into. An operation that can throw returns the world it leaves behind and the message of
  the error, if any.
\<close>

record 'w node_env =
  existsSync :: "'w \<Rightarrow> string \<Rightarrow> bool"
  glob_sync :: "'w \<Rightarrow> string \<Rightarrow> string \<Rightarrow> string list"
  ensureDir :: "'w \<Rightarrow> string \<Rightarrow> 'w \<times> string option"
  sharp_webp_toFile :: "'w \<Rightarrow> string \<Rightarrow> nat \<Rightarrow> string \<Rightarrow> 'w \<times> string option"

text \<open>
  The answers of the user to the prompts of \<open>inquirer\<close>, as each prompt accepts them: a
  list prompt returns one of its values, a checkbox prompt the checked values.
\<close>

datatype selection_mode = SelectAll | SelectFolder | SelectFile

datatype strategy = new_folder | overwrite

record answers =
  selectionMode :: selection_mode
  selectedDirs :: "string list"
  files :: "string list"
  strategy :: strategy
  customSuffix :: string
  confirm :: bool

text \<open>What the program shows: its console lines (text styling left out) and prompts.\<close>

datatype prompt =
    Prompt_selectionMode
  | Prompt_selectedDirs "(string \<times> string) list"
  | Prompt_files "string list"
  | Prompt_strategy
  | Prompt_customSuffix
  | Prompt_confirm

datatype event =
    Print_usage
  | Print_banner
  | Public_not_found
  | Found_public string
  | No_images_found
  | Found_images nat
  | Ask prompt
  | Selected_count nat
  | Operation_cancelled
  | Optimizing string
  | Error_line string
  | Optimization_complete
  | Processed nat
  | Failed nat
  | Overwrite_note
  | Fatal_error string

text \<open>How a run of \<open>main\<close> ends early: \<open>process.exit(code)\<close>, or an error thrown.\<close>

datatype halt = Exit nat | Throw string

subsection \<open>The conversion worker\<close>

definition optimizeImage ::
  "'w node_env \<Rightarrow> 'w \<Rightarrow> string \<Rightarrow> string \<Rightarrow> nat \<Rightarrow> 'w \<times> string option" where
  "optimizeImage env w inputPath outputPath quality =
     (case sharp_webp_toFile env w inputPath quality outputPath of
        (w', None) \<Rightarrow> (w', None)
      | (w', Some message) \<Rightarrow>
          (w', Some (''Failed to optimize '' @ path_basename inputPath [] @ '': '' @ message)))"

subsection \<open>Where the output of a file goes\<close>

definition outputDirName :: "string \<Rightarrow> string \<Rightarrow> string" where
  "outputDirName dir suffix = (if dir = ''.'' then suffix else dir @ suffix)"

definition outputDirPath :: "string \<Rightarrow> string \<Rightarrow> string \<Rightarrow> string" where
  "outputDirPath publicDir suffix file =
     path_join [publicDir, outputDirName (path_dirname file) suffix]"

definition outputPath :: "strategy \<Rightarrow> string \<Rightarrow> string \<Rightarrow> string \<Rightarrow> string" where
  "outputPath strat publicDir suffix file =
     (let dir = path_dirname file;
          ext = path_extname file;
          baseName = path_basename file ext
      in if strat = overwrite then path_join [publicDir, dir, baseName @ ''.webp'']
         else path_join [outputDirPath publicDir suffix file, baseName @ ''.webp''])"

subsection \<open>The batch loop\<close>

record 'w loop_state =
  world :: 'w
  successCount :: nat
  failCount :: nat
  console :: "event list"

text \<open>
  One turn of the \<open>for\<close> loop. \<open>fs.ensureDir\<close> stands before the \<open>try\<close>: its error
  leaves the loop. An error of \<open>optimizeImage\<close> is caught, printed and counted.
\<close>

definition process_file ::
  "'w node_env \<Rightarrow> string \<Rightarrow> strategy \<Rightarrow> string \<Rightarrow> 'w loop_state \<Rightarrow> string
     \<Rightarrow> string option \<times> 'w loop_state" where
  "process_file env publicDir strat suffix st file =
     (let inputPath = path_join [publicDir, file];
          (w1, thrown) =
            (if strat = overwrite then (world st, None)
             else ensureDir env (world st) (outputDirPath publicDir suffix file))
      in case thrown of
           Some err \<Rightarrow> (Some err, st\<lparr>world := w1\<rparr>)
         | None \<Rightarrow>
            (case optimizeImage env w1 inputPath (outputPath strat publicDir suffix file) 80 of
               (w2, None) \<Rightarrow>
                 (None, st\<lparr>world := w2, successCount := successCount st + 1,
                            console := console st @ [Optimizing file]\<rparr>)
             | (w2, Some message) \<Rightarrow>
                 (None, st\<lparr>world := w2, failCount := failCount st + 1,
                            console := console st @ [Optimizing file, Error_line message]\<rparr>)))"

fun optimize_loop ::
  "'w node_env \<Rightarrow> string \<Rightarrow> strategy \<Rightarrow> string \<Rightarrow> 'w loop_state \<Rightarrow> string list
     \<Rightarrow> string option \<times> 'w loop_state" where
  "optimize_loop env publicDir strat suffix st [] = (None, st)"
| "optimize_loop env publicDir strat suffix st (file # rest) =
     (case process_file env publicDir strat suffix st file of
        (Some err, st') \<Rightarrow> (Some err, st')
      | (None, st') \<Rightarrow> optimize_loop env publicDir strat suffix st' rest)"

subsection \<open>Selection\<close>

text \<open>\<open>[...new Set(xs)]\<close>: the distinct elements in the order of their first occurrence.\<close>

definition unique :: "'a list \<Rightarrow> 'a list" where
  "unique xs = rev (remdups (rev xs))"

definition folder_choices :: "string list \<Rightarrow> (string \<times> string) list" where
  "folder_choices imageFiles =
     map (\<lambda>d. (if d = ''.'' then ''Root (public/)'' else d, d))
       (unique (map path_dirname imageFiles))"

definition select_by_folder :: "string list \<Rightarrow> string list \<Rightarrow> string list" where
  "select_by_folder imageFiles dirs =
     filter (\<lambda>f. path_dirname f \<in> set dirs) imageFiles"

definition select_files :: "answers \<Rightarrow> string list \<Rightarrow> string list \<times> event list" where
  "select_files ans imageFiles =
     (case selectionMode ans of
        SelectAll \<Rightarrow> (imageFiles, [])
      | SelectFolder \<Rightarrow>
          (select_by_folder imageFiles (selectedDirs ans),
           [Ask (Prompt_selectedDirs (folder_choices imageFiles))])
      | SelectFile \<Rightarrow> (files ans, [Ask (Prompt_files imageFiles)]))"

subsection \<open>\<open>main\<close> and the process around it\<close>

definition image_pattern :: string where
  "image_pattern = ''**/*.{jpg,jpeg,png,gif,svg}''"

definition publicDir_of :: "string \<Rightarrow> string" where
  "publicDir_of cwd = path_join [cwd, ''public'']"

definition summary :: "strategy \<Rightarrow> 'w loop_state \<Rightarrow> event list" where
  "summary strat st =
     [Optimization_complete, Processed (successCount st)]
     @ (if failCount st > 0 then [Failed (failCount st)] else [])
     @ (if strat = overwrite then [Overwrite_note] else [])"

definition chosen_suffix :: "answers \<Rightarrow> string" where
  "chosen_suffix ans = (if strategy ans = new_folder then customSuffix ans else ''_optimized'')"

text \<open>Everything shown from the start of \<open>main\<close> up to the confirmation prompt.\<close>

definition dialogue :: "answers \<Rightarrow> string \<Rightarrow> string list \<Rightarrow> event list" where
  "dialogue ans publicDir imageFiles =
     (let (selectedFiles, asked) = select_files ans imageFiles
      in [Print_banner, Found_public publicDir, Found_images (length imageFiles),
          Ask Prompt_selectionMode]
         @ asked @ [Selected_count (length selectedFiles), Ask Prompt_strategy]
         @ (if strategy ans = new_folder then [Ask Prompt_customSuffix] else [])
         @ [Ask Prompt_confirm])"

definition run_batch ::
  "'w node_env \<Rightarrow> string \<Rightarrow> answers \<Rightarrow> 'w \<Rightarrow> string list
     \<Rightarrow> string option \<times> 'w loop_state" where
  "run_batch env publicDir ans w imageFiles =
     optimize_loop env publicDir (strategy ans) (chosen_suffix ans)
       \<lparr>world = w, successCount = 0, failCount = 0,
        console = dialogue ans publicDir imageFiles\<rparr>
       (fst (select_files ans imageFiles))"

definition main ::
  "'w node_env \<Rightarrow> string \<Rightarrow> answers \<Rightarrow> 'w \<Rightarrow> halt option \<times> 'w \<times> event list" where
  "main env cwd ans w =
     (let publicDir = publicDir_of cwd in
      if \<not> existsSync env w publicDir then (Some (Exit 1), w, [Print_banner, Public_not_found])
      else
        let imageFiles = glob_sync env w image_pattern publicDir
        in if length imageFiles = 0 then
             (None, w, [Print_banner, Found_public publicDir, No_images_found])
           else if \<not> confirm ans then
             (Some (Exit 0), w, dialogue ans publicDir imageFiles @ [Operation_cancelled])
           else
             (case run_batch env publicDir ans w imageFiles of
                (Some err, st) \<Rightarrow> (Some (Throw err), world st, console st)
              | (None, st) \<Rightarrow> (None, world st, console st @ summary (strategy ans) st)))"

text \<open>
  \<open>main().catch(...)\<close>: an error that leaves \<open>main\<close> is caught, printed, and ends the
  process with status 1. \<open>process.exit(code)\<close> inside \<open>main\<close> ends it with that
  status, and a run that returns ends with status 0.
\<close>

definition main_catch ::
  "'w node_env \<Rightarrow> string \<Rightarrow> answers \<Rightarrow> 'w \<Rightarrow> nat \<times> 'w \<times> event list" where
  "main_catch env cwd ans w =
     (case main env cwd ans w of
        (Some (Exit code), w', shown) \<Rightarrow> (code, w', shown)
      | (Some (Throw err), w', shown) \<Rightarrow> (1, w', shown @ [Fatal_error err])
      | (None, w', shown) \<Rightarrow> (0, w', shown))"

text \<open>The script: the help flag is handled before anything else.\<close>

definition optimize_js ::
  "'w node_env \<Rightarrow> string list \<Rightarrow> string \<Rightarrow> answers \<Rightarrow> 'w \<Rightarrow> nat \<times> 'w \<times> event list" where
  "optimize_js env args cwd ans w =
     (if ''--help'' \<in> set args \<or> ''-h'' \<in> set args then (0, w, [Print_usage])
      else main_catch env cwd ans w)"

section \<open>The pattern language of \<open>glob\<close>\<close>

text \<open>
  The scan is \<open>glob.sync('**/*.{jpg,jpeg,png,gif,svg}', { cwd: publicDir, nodir: true })\<close>.
  No option of the call changes the defaults of the matcher: letters are compared as
  they are written (no \<open>nocase\<close>), and a name that starts with \<open>.\<close> is matched only by
  a pattern segment that starts with \<open>.\<close> itself (no \<open>dot\<close>).
\<close>

text \<open>Brace expansion, for a pattern with at most one group \<open>{a,b,...}\<close>.\<close>

definition brace_expand :: "string \<Rightarrow> string list" where
  "brace_expand pattern =
     (let pre = takeWhile (\<lambda>c. c \<noteq> CHR ''{'') pattern;
          opened = dropWhile (\<lambda>c. c \<noteq> CHR ''{'') pattern
      in if opened = [] then [pattern]
         else
           let body = takeWhile (\<lambda>c. c \<noteq> CHR ''}'') (tl opened);
               closed = dropWhile (\<lambda>c. c \<noteq> CHR ''}'') (tl opened)
           in if closed = [] then [pattern]
              else map (\<lambda>alt. pre @ alt @ tl closed) (split_on (CHR '','') body))"

text \<open>One pattern segment against one name: \<open>*\<close> stands for any characters.\<close>

fun wildcard :: "string \<Rightarrow> string \<Rightarrow> bool" where
  "wildcard [] [] = True"
| "wildcard [] (c # cs) = False"
| "wildcard (p # ps) [] = (p = CHR ''*'' \<and> wildcard ps [])"
| "wildcard (p # ps) (c # cs) =
     (if p = CHR ''*'' then wildcard ps (c # cs) \<or> wildcard (p # ps) cs
      else p = c \<and> wildcard ps cs)"

definition hidden :: "string \<Rightarrow> bool" where
  "hidden name = (name \<noteq> [] \<and> hd name = CHR ''.'')"

definition match_segment :: "string \<Rightarrow> string \<Rightarrow> bool" where
  "match_segment pat name =
     (name \<noteq> [] \<and> (if hidden name then hidden pat else True) \<and> wildcard pat name)"

text \<open>
  The segments of a pattern against the segments of a relative path: \<open>**\<close> stands for
  any number of directories, none of them hidden.
\<close>

fun match_path :: "string list \<Rightarrow> string list \<Rightarrow> bool" where
  "match_path [] [] = True"
| "match_path [] (n # ns) = False"
| "match_path (p # ps) [] = (p = ''**'' \<and> match_path ps [])"
| "match_path (p # ps) (n # ns) =
     (if p = ''**'' then
        match_path ps (n # ns) \<or> (n \<noteq> [] \<and> \<not> hidden n \<and> match_path (p # ps) ns)
      else match_segment p n \<and> match_path ps ns)"

definition glob_matches :: "string \<Rightarrow> string \<Rightarrow> bool" where
  "glob_matches pattern rel =
     list_ex (\<lambda>pat. match_path (split_slash pat) (split_slash rel)) (brace_expand pattern)"

section \<open>A file system in memory\<close>

text \<open>
  A small stand-in for the collaborators, to run the program on concrete inputs: a disk
  is the directories that exist and the regular files with their bytes. Creating a
  directory fails where a regular file has the name; a conversion fails when the input
  is missing or the codec rejects its bytes, and otherwise writes the encoded bytes to
  the output path, replacing a file that is there.
\<close>

record disk =
  directories :: "string list"
  contents :: "(string \<times> string) list"

definition disk_existsSync :: "disk \<Rightarrow> string \<Rightarrow> bool" where
  "disk_existsSync d p = (p \<in> set (directories d) \<or> map_of (contents d) p \<noteq> None)"

definition relative_to :: "string \<Rightarrow> string \<Rightarrow> string option" where
  "relative_to cwd p =
     (if take (Suc (length cwd)) p = cwd @ ''/'' then Some (drop (Suc (length cwd)) p)
      else None)"

definition disk_glob_sync :: "disk \<Rightarrow> string \<Rightarrow> string \<Rightarrow> string list" where
  "disk_glob_sync d pattern cwd =
     filter (glob_matches pattern) (List.map_filter (relative_to cwd) (map fst (contents d)))"

definition disk_ensureDir :: "disk \<Rightarrow> string \<Rightarrow> disk \<times> string option" where
  "disk_ensureDir d p =
     (if map_of (contents d) p \<noteq> None
      then (d, Some (''EEXIST: file already exists, mkdir '' @ p))
      else (d\<lparr>directories := List.insert p (directories d)\<rparr>, None))"

definition disk_sharp ::
  "(string \<Rightarrow> nat \<Rightarrow> string option) \<Rightarrow> disk \<Rightarrow> string \<Rightarrow> nat \<Rightarrow> string
     \<Rightarrow> disk \<times> string option" where
  "disk_sharp codec d input quality output =
     (case map_of (contents d) input of
        None \<Rightarrow> (d, Some ''Input file is missing'')
      | Some bytes \<Rightarrow>
          (case codec bytes quality of
             None \<Rightarrow> (d, Some ''Input file contains unsupported image format'')
           | Some webp \<Rightarrow>
               (d\<lparr>contents := AList.update output webp (contents d)\<rparr>, None)))"

definition disk_env :: "(string \<Rightarrow> nat \<Rightarrow> string option) \<Rightarrow> disk node_env" where
  "disk_env codec =
     \<lparr>existsSync = disk_existsSync, glob_sync = disk_glob_sync,
      ensureDir = disk_ensureDir, sharp_webp_toFile = disk_sharp codec\<rparr>"

text \<open>A codec for the examples: bytes that start with \<open>!\<close> are not an image.\<close>

definition toy_codec :: "string \<Rightarrow> nat \<Rightarrow> string option" where
  "toy_codec bytes quality =
     (if take 1 bytes = ''!'' then None else Some (''webp:'' @ bytes))"

section \<open>Notions used in the proofs\<close>

text \<open>The extensions the scan pattern names, as \<open>path.extname\<close> returns them.\<close>

definition recognized_extensions :: "string list" where
  "recognized_extensions = [''.jpg'', ''.jpeg'', ''.png'', ''.gif'', ''.svg'']"


fun prompts_asked :: "event list \<Rightarrow> prompt list" where
  "prompts_asked [] = []"
| "prompts_asked (Ask p # es) = p # prompts_asked es"
| "prompts_asked (e # es) = prompts_asked es"




text \<open>
  A codec that touches no path but the output of a conversion (\<open>read\<close> is any way
  to look at a path).
\<close>

definition writes_only_output :: "('w \<Rightarrow> string \<Rightarrow> 'c) \<Rightarrow> 'w node_env \<Rightarrow> bool" where
  "writes_only_output read env =
     (\<forall>w input quality output p.
        p \<noteq> output \<longrightarrow>
        read (fst (sharp_webp_toFile env w input quality output)) p = read w p)"

text \<open>A run of \<open>main\<close> that ends with an error thrown, for \<open>main().catch\<close> to handle.\<close>

definition throws :: "halt option \<Rightarrow> bool" where
  "throws h = (case h of Some (Throw err) \<Rightarrow> True | _ \<Rightarrow> False)"

text \<open>
  The scanner as the specification words it: a file is recognized when its extension,
  compared without regard to case, is one of the recognized set.
\<close>

definition toLowerCase :: "string \<Rightarrow> string" where
  "toLowerCase s =
     map (\<lambda>c. case map_of (zip ''ABCDEFGHIJKLMNOPQRSTUVWXYZ'' ''abcdefghijklmnopqrstuvwxyz'') c of
                 None \<Rightarrow> c | Some l \<Rightarrow> l) s"

definition spec_recognized :: "string \<Rightarrow> bool" where
  "spec_recognized rel = (toLowerCase (path_extname rel) \<in> set recognized_extensions)"

text \<open>
  A relative path lies inside a directory when it is the directory or continues it after
  a separator.
\<close>

definition inside :: "string \<Rightarrow> string \<Rightarrow> bool" where
  "inside dir p = (p = dir \<or> take (Suc (length dir)) p = dir @ ''/'')"

text \<open>A name a directory or a file can have and the scan does not pass over.\<close>

definition visible :: "string \<Rightarrow> bool" where
  "visible name = (name \<noteq> [] \<and> \<not> hidden name)"

text \<open>
  The segments \<open>normalizeString\<close> leaves: none is empty, \<open>.\<close> or holds a separator,
  and \<open>..\<close> stands only at the front of a path that may climb above its start. The
  list is read from its last segment back.
\<close>

fun nf_rev :: "bool \<Rightarrow> string list \<Rightarrow> bool" where
  "nf_rev allow [] = True"
| "nf_rev allow (s # below) =
     (s \<noteq> [] \<and> s \<noteq> ''.'' \<and> CHR ''/'' \<notin> set s
      \<and> (if s = ''..'' then allow \<and> (below = [] \<or> hd below = ''..'') else True)
      \<and> nf_rev allow below)"

definition normal_form :: "bool \<Rightarrow> string list \<Rightarrow> bool" where
  "normal_form allow st = nf_rev allow (rev st)"

text \<open>How \<open>path.normalize\<close> writes the segments it kept.\<close>

definition render :: "bool \<Rightarrow> bool \<Rightarrow> string list \<Rightarrow> string" where
  "render isAbsolute trailingSeparator res =
     (if res = [] then
        (if isAbsolute then ''/'' else if trailingSeparator then ''./'' else ''.'')
      else (if isAbsolute then ''/'' else []) @ join_slash res
           @ (if trailingSeparator then ''/'' else []))"

section \<open>Splitting and joining\<close>

lemma split_on_not_Nil [simp]: "split_on c s \<noteq> []"
  by (induction s) (auto split: list.splits)

lemma split_on_no_sep: "c \<notin> set s \<Longrightarrow> split_on c s = [s]"
  by (induction s) auto

lemma split_on_append: "split_on c (a @ c # b) = split_on c a @ split_on c b"
  by (induction a) (auto split: list.splits)

lemma split_on_sep_free: "x \<in> set (split_on c s) \<Longrightarrow> c \<notin> set x"
  by (induction s arbitrary: x) (auto split: if_splits list.splits)

lemma split_on_snoc: "c \<notin> set y \<Longrightarrow> split_on c (a @ c # y) = split_on c a @ [y]"
  by (simp add: split_on_append split_on_no_sep)

lemma join_slash_snoc: "xs \<noteq> [] \<Longrightarrow> join_slash (xs @ [y]) = join_slash xs @ CHR ''/'' # y"
  by (induction xs rule: join_slash.induct) auto

lemma split_join_slash:
  "xs \<noteq> [] \<Longrightarrow> \<forall>x\<in>set xs. CHR ''/'' \<notin> set x \<Longrightarrow> split_slash (join_slash xs) = xs"
proof (induction xs rule: join_slash.induct)
  case (3 x y ys)
  then show ?case by (simp add: split_on_append split_on_no_sep)
qed (simp_all add: split_on_no_sep)

section \<open>Patterns\<close>

lemma endsWith_iff: "endsWith s e \<longleftrightarrow> (\<exists>p. s = p @ e)"
  unfolding endsWith_def
proof
  assume a: "length e \<le> length s \<and> drop (length s - length e) s = e"
  then have "s = take (length s - length e) s @ e" by (metis append_take_drop_id)
  then show "\<exists>p. s = p @ e" ..
next
  assume "\<exists>p. s = p @ e"
  then show "length e \<le> length s \<and> drop (length s - length e) s = e" by auto
qed

lemma endsWith_Cons: "endsWith (c # cs) e \<longleftrightarrow> e = c # cs \<or> endsWith cs e"
  unfolding endsWith_iff by (metis append_eq_Cons_conv append_Nil)

lemma wildcard_literal: "CHR ''*'' \<notin> set lit \<Longrightarrow> wildcard lit name \<longleftrightarrow> name = lit"
  by (induction lit name rule: wildcard.induct) auto

lemma wildcard_star_literal:
  "CHR ''*'' \<notin> set lit \<Longrightarrow> wildcard (CHR ''*'' # lit) name \<longleftrightarrow> endsWith name lit"
proof (induction name)
  case Nil
  then show ?case by (cases lit) (auto simp: endsWith_def)
next
  case (Cons c cs)
  then show ?case by (auto simp: endsWith_Cons wildcard_literal)
qed

lemma match_path_single:
  "p \<noteq> ''**'' \<Longrightarrow> match_path [p] names \<longleftrightarrow> (\<exists>n. names = [n] \<and> match_segment p n)"
  by (cases names; cases "tl names") auto

lemma match_path_globstar:
  "p \<noteq> ''**'' \<Longrightarrow>
   match_path [''**'', p] names \<longleftrightarrow>
     names \<noteq> [] \<and> list_all visible (butlast names) \<and> match_segment p (last names)"
proof (induction names)
  case Nil
  then show ?case by simp
next
  case (Cons n ns)
  show ?case
  proof (cases ns)
    case Nil
    then show ?thesis using Cons.prems by (simp add: match_path_single)
  next
    case (Cons m ms)
    then show ?thesis
      using Cons.IH Cons.prems by (auto simp: match_path_single visible_def)
  qed
qed

lemma brace_expand_pattern:
  "brace_expand image_pattern =
     [''**/*.jpg'', ''**/*.jpeg'', ''**/*.png'', ''**/*.gif'', ''**/*.svg'']"
  by (simp add: brace_expand_def image_pattern_def)

section \<open>Normalization\<close>

lemma normal_form_Nil [simp]: "normal_form a []"
  by (simp add: normal_form_def)

lemma normal_form_snoc:
  "normal_form a (st @ [s]) \<longleftrightarrow>
     s \<noteq> [] \<and> s \<noteq> ''.'' \<and> CHR ''/'' \<notin> set s
     \<and> (s = ''..'' \<longrightarrow> a \<and> (st = [] \<or> last st = ''..''))
     \<and> normal_form a st"
  by (auto simp: normal_form_def hd_rev)

lemma normal_form_single:
  "normal_form a [s] \<longleftrightarrow>
     s \<noteq> [] \<and> s \<noteq> ''.'' \<and> CHR ''/'' \<notin> set s \<and> (s = ''..'' \<longrightarrow> a)"
  using normal_form_snoc [of a "[]" s] by auto

lemma normal_form_butlast: "normal_form a st \<Longrightarrow> normal_form a (butlast st)"
  by (cases st rule: rev_cases) (auto simp: normal_form_snoc)

lemma normalize_step_normal:
  assumes "normal_form a res" and "CHR ''/'' \<notin> set seg"
  shows "normal_form a (normalize_step a res seg)"
  using assms by (auto simp: normalize_step_def normal_form_snoc normal_form_single normal_form_butlast)

lemma foldl_step_normal:
  "normal_form a res \<Longrightarrow> \<forall>s\<in>set segs. CHR ''/'' \<notin> set s \<Longrightarrow>
   normal_form a (foldl (normalize_step a) res segs)"
  by (induction segs arbitrary: res) (auto simp: normalize_step_normal)

lemma normalizeString_normal: "normal_form a (normalizeString p a)"
  unfolding normalizeString_def
  by (rule foldl_step_normal) (auto dest: split_on_sep_free)

lemma foldl_step_normal_id:
  "normal_form a st \<Longrightarrow> foldl (normalize_step a) [] st = st"
proof (induction st rule: rev_induct)
  case Nil
  then show ?case by simp
next
  case (snoc s st)
  then have "foldl (normalize_step a) [] st = st" by (simp add: normal_form_snoc)
  moreover have "normalize_step a st s = st @ [s]"
    using snoc.prems by (auto simp: normal_form_snoc normalize_step_def)
  ultimately show ?case by simp
qed

lemma foldl_step_drop_empty:
  "foldl (normalize_step a) res (filter (\<lambda>s. s \<noteq> []) segs) = foldl (normalize_step a) res segs"
  by (induction segs arbitrary: res) (auto simp: normalize_step_def)

lemma normal_form_plain:
  "normal_form a st \<Longrightarrow> s \<in> set st \<Longrightarrow> s \<noteq> [] \<and> CHR ''/'' \<notin> set s"
  by (induction st rule: rev_induct) (auto simp: normal_form_snoc)

lemma path_normalize_render:
  "x \<noteq> [] \<Longrightarrow>
   path_normalize x =
     render (hd x = CHR ''/'') (last x = CHR ''/'') (normalizeString x (hd x \<noteq> CHR ''/''))"
  by (simp add: path_normalize_def render_def Let_def)

lemma normalizeString_append:
  "normalizeString (x @ CHR ''/'' # y) a =
     foldl (normalize_step a) (normalizeString x a) (split_slash y)"
  by (simp add: normalizeString_def split_on_append)

lemma join_slash_eq_Nil: "join_slash st = [] \<longleftrightarrow> st = [] \<or> st = [[]]"
  by (induction st rule: join_slash.induct) auto

lemma hd_join_slash: "st \<noteq> [] \<Longrightarrow> hd st \<noteq> [] \<Longrightarrow> hd (join_slash st) = hd (hd st)"
  by (induction st rule: join_slash.induct) auto

lemma render_not_Nil: "normal_form b st \<Longrightarrow> render a t st \<noteq> []"
  using normal_form_plain [of b st "hd st"]
  by (cases st) (auto simp: render_def join_slash_eq_Nil)

lemma hd_render:
  "normal_form b st \<Longrightarrow> (hd (render a t st) = CHR ''/'') = a"
proof (cases st)
  case Nil
  then show ?thesis by (simp add: render_def)
next
  case (Cons s ss)
  assume "normal_form b st"
  then have s: "s \<noteq> []" "CHR ''/'' \<notin> set s"
    using Cons normal_form_plain [of b st s] by auto
  then have "hd s \<noteq> CHR ''/''" by (cases s) auto
  moreover have "join_slash st \<noteq> []" using Cons s by (cases ss) auto
  moreover have "hd (join_slash st) = hd s" using Cons s by (simp add: hd_join_slash)
  ultimately show ?thesis using Cons by (auto simp: render_def)
qed

lemma normalizeString_render:
  assumes "normal_form a st"
  shows "normalizeString (render b t st) a = st"
proof (cases "st = []")
  case True
  then show ?thesis
    by (simp add: render_def normalizeString_def normalize_step_def)
next
  case False
  have plain: "\<forall>s\<in>set st. CHR ''/'' \<notin> set s" "\<forall>s\<in>set st. s \<noteq> []"
    using assms normal_form_plain by blast+
  have split: "split_slash (join_slash st) = st"
    using False plain by (simp add: split_join_slash)
  have keep: "filter (\<lambda>s. s \<noteq> []) st = st" using plain by (simp add: filter_id_conv)
  have "filter (\<lambda>s. s \<noteq> []) (split_slash (render b t st)) = st"
  proof -
    have "split_slash (join_slash st @ ''/'') = st @ [[]]"
      using split split_on_append [of "CHR ''/''" "join_slash st" "[]"] by simp
    then show ?thesis using False split keep by (auto simp: render_def)
  qed
  then have "normalizeString (render b t st) a = foldl (normalize_step a) [] st"
    unfolding normalizeString_def using foldl_step_drop_empty [of a "[]" "split_slash (render b t st)"]
    by simp
  then show ?thesis using assms by (simp add: foldl_step_normal_id)
qed

lemma normalizeString_idem:
  "x \<noteq> [] \<Longrightarrow> a = (hd x \<noteq> CHR ''/'') \<Longrightarrow> normalizeString (path_normalize x) a = normalizeString x a"
  by (simp add: path_normalize_render normalizeString_render normalizeString_normal)

lemma hd_path_normalize:
  "x \<noteq> [] \<Longrightarrow> (hd (path_normalize x) = CHR ''/'') = (hd x = CHR ''/'')"
  using hd_render [OF normalizeString_normal] by (simp add: path_normalize_render)

lemma path_normalize_not_Nil [simp]: "path_normalize x \<noteq> []"
proof (cases "x = []")
  case True
  then show ?thesis by (simp add: path_normalize_def)
next
  case False
  then show ?thesis
    using render_not_Nil [OF normalizeString_normal] by (simp add: path_normalize_render)
qed

lemma path_normalize_law:
  assumes "x \<noteq> []" and "y \<noteq> []"
  shows "path_normalize (path_normalize x @ CHR ''/'' # y) = path_normalize (x @ CHR ''/'' # y)"
proof -
  let ?a = "hd x \<noteq> CHR ''/''"
  have "(hd (path_normalize x @ CHR ''/'' # y) = CHR ''/'') = (hd x = CHR ''/'')"
    using assms hd_path_normalize [of x] by (cases "path_normalize x") auto
  moreover have "(hd (x @ CHR ''/'' # y) = CHR ''/'') = (hd x = CHR ''/'')"
    using assms by (cases x) auto
  moreover have "normalizeString (path_normalize x @ CHR ''/'' # y) ?a
      = normalizeString (x @ CHR ''/'' # y) ?a"
    using assms by (simp add: normalizeString_append normalizeString_idem)
  moreover have "last (path_normalize x @ CHR ''/'' # y) = last (x @ CHR ''/'' # y)"
    using assms by simp
  ultimately show ?thesis
    by (simp add: path_normalize_render)
qed

lemma path_dirname_not_Nil [simp]: "path_dirname p \<noteq> []"
proof (cases "p = []")
  case True
  then show ?thesis by (simp add: path_dirname_def)
next
  case False
  define upto where "upto = dropWhile (\<lambda>c. c \<noteq> CHR ''/'')
                     (dropWhile (\<lambda>c. c = CHR ''/'') (rev (tl p)))"
  have "upto \<noteq> [] \<Longrightarrow> take (length upto) p \<noteq> []"
    using False by (cases p) auto
  then show ?thesis using False
    unfolding path_dirname_def Let_def upto_def [symmetric] by auto
qed

lemma normalize_skip_dot:
  assumes "x \<noteq> []" and "y \<noteq> []"
  shows "path_normalize (x @ CHR ''/'' # CHR ''.'' # CHR ''/'' # y) = path_normalize (x @ CHR ''/'' # y)"
proof -
  have s: "split_slash (CHR ''.'' # CHR ''/'' # y) = ''.'' # split_slash y"
    by simp
  have "normalizeString (x @ CHR ''/'' # CHR ''.'' # CHR ''/'' # y) a
        = normalizeString (x @ CHR ''/'' # y) a" for a
    unfolding normalizeString_append s by (simp add: normalize_step_def)
  moreover have "hd (x @ CHR ''/'' # CHR ''.'' # CHR ''/'' # y) = hd (x @ CHR ''/'' # y)"
    using assms by (cases x) auto
  moreover have "last (x @ CHR ''/'' # CHR ''.'' # CHR ''/'' # y) = last (x @ CHR ''/'' # y)"
    using assms by simp
  ultimately show ?thesis by (simp add: path_normalize_render)
qed

section \<open>Directory names\<close>

lemma join_split_slash: "join_slash (split_slash s) = s"
proof (induction s)
  case Nil
  then show ?case by simp
next
  case (Cons c cs)
  obtain w ws where w: "split_slash cs = w # ws"
    by (cases "split_slash cs") auto
  show ?case
    using Cons w by (cases ws) auto
qed

lemma last_join_slash: "st \<noteq> [] \<Longrightarrow> last st \<noteq> [] \<Longrightarrow> last (join_slash st) = last (last st)"
proof (induction st rule: join_slash.induct)
  case (3 x y ys)
  then have "join_slash (y # ys) \<noteq> []" by (auto simp: join_slash_eq_Nil)
  then show ?case using 3 by simp
qed simp_all

lemma last_split_on:
  "last (split_on c s) = rev (takeWhile (\<lambda>x. x \<noteq> c) (rev s))"
proof (cases "c \<in> set s")
  case False
  then have tw: "takeWhile (\<lambda>x. x \<noteq> c) (rev s) = rev s"
    by auto
  show ?thesis unfolding tw using False by (simp add: split_on_no_sep)
next
  case True
  then obtain a b where s: "s = a @ c # b" and b: "c \<notin> set b"
    using split_list_last [of c s] by blast
  have "takeWhile (\<lambda>x. x \<noteq> c) (rev b @ c # rev a)
        = rev b @ takeWhile (\<lambda>x. x \<noteq> c) (c # rev a)"
    using b by (intro takeWhile_append2) auto
  then have "takeWhile (\<lambda>x. x \<noteq> c) (rev b @ c # rev a) = rev b"
    by simp
  then show ?thesis using s b by (simp add: split_on_snoc)
qed

lemma last_split_on_not_Nil:
  "s \<noteq> [] \<Longrightarrow> last s \<noteq> c \<Longrightarrow> last (split_on c s) \<noteq> [] \<and> last (last (split_on c s)) = last s"
  unfolding last_split_on by (cases s rule: rev_cases) auto

lemma dropWhile_sep_id: "c \<notin> set xs \<Longrightarrow> dropWhile (\<lambda>x. x = c) xs = xs"
  by (cases xs) auto

lemma dropWhile_not_sep_all: "c \<notin> set xs \<Longrightarrow> dropWhile (\<lambda>x. x \<noteq> c) xs = []"
  by (induction xs) auto

lemma dropWhile_no_sep:
  assumes "c \<notin> set xs"
  shows "dropWhile (\<lambda>x. x \<noteq> c) (dropWhile (\<lambda>x. x = c) xs) = []"
  unfolding dropWhile_sep_id [OF assms] by (rule dropWhile_not_sep_all [OF assms])

lemma path_dirname_no_slash: "CHR ''/'' \<notin> set f \<Longrightarrow> path_dirname f = ''.''"
proof (cases f)
  case Nil
  then show ?thesis by (simp add: path_dirname_def)
next
  case (Cons c cs)
  assume f: "CHR ''/'' \<notin> set f"
  then have "CHR ''/'' \<notin> set (rev cs)" using Cons by simp
  then have upto: "dropWhile (\<lambda>c. c \<noteq> CHR ''/'') (dropWhile (\<lambda>c. c = CHR ''/'') (rev cs)) = []"
    by (rule dropWhile_no_sep)
  have "c \<noteq> CHR ''/''" using f Cons by auto
  then show ?thesis
    unfolding path_dirname_def Let_def Cons list.sel upto by simp
qed

lemma path_dirname_root_segment:
  assumes "x \<noteq> []" and "CHR ''/'' \<notin> set x"
  shows "path_dirname (CHR ''/'' # x) = ''/''"
proof -
  have "CHR ''/'' \<notin> set (rev x)" using assms by simp
  then have upto: "dropWhile (\<lambda>c. c \<noteq> CHR ''/'') (dropWhile (\<lambda>c. c = CHR ''/'') (rev x)) = []"
    by (rule dropWhile_no_sep)
  show ?thesis
    unfolding path_dirname_def Let_def list.sel upto by simp
qed

lemma dropWhile_not_sep_append:
  "c \<notin> set xs \<Longrightarrow> dropWhile (\<lambda>x. x \<noteq> c) (xs @ ys) = dropWhile (\<lambda>x. x \<noteq> c) ys"
  by (induction xs) auto

lemma path_dirname_append_segment:
  assumes "d \<noteq> []" and "last d \<noteq> CHR ''/''" and "x \<noteq> []" and "CHR ''/'' \<notin> set x"
  shows "path_dirname (d @ CHR ''/'' # x) = d"
proof -
  have tl: "rev (tl (d @ CHR ''/'' # x)) = rev x @ CHR ''/'' # rev (tl d)"
    using assms by simp
  have hdx: "hd (rev x) \<noteq> CHR ''/''"
    by (metis assms(3,4) hd_rev last_in_set)
  have "dropWhile (\<lambda>c. c = CHR ''/'') (rev x @ CHR ''/'' # rev (tl d)) = rev x @ CHR ''/'' # rev (tl d)"
    using assms hdx by (cases "rev x") auto
  moreover have "dropWhile (\<lambda>c. c \<noteq> CHR ''/'') (rev x @ CHR ''/'' # rev (tl d)) = CHR ''/'' # rev (tl d)"
    using assms dropWhile_not_sep_append [of "CHR ''/''" "rev x"] by simp
  ultimately have upto: "dropWhile (\<lambda>c. c \<noteq> CHR ''/'')
       (dropWhile (\<lambda>c. c = CHR ''/'') (rev (tl (d @ CHR ''/'' # x)))) = CHR ''/'' # rev (tl d)"
    unfolding tl by simp
  have len: "length (CHR ''/'' # rev (tl d)) = length d" using assms by (cases d) auto
  have root: "\<not> (hd d = CHR ''/'' \<and> length d = 1)"
    using assms by (cases d) auto
  have hd: "hd (d @ CHR ''/'' # x) = hd d" using assms by simp
  show ?thesis
    unfolding path_dirname_def Let_def upto len hd using root assms(1) by auto
qed

lemma path_dirname_append_suffix:
  assumes "dir \<noteq> []" and "last dir \<noteq> CHR ''/''" and "CHR ''/'' \<notin> set suffix"
  shows "path_dirname (dir @ suffix) = path_dirname dir"
proof (cases "suffix = []")
  case True
  then show ?thesis by simp
next
  case False
  let ?R = "rev (tl dir)"
  have tl: "rev (tl (dir @ suffix)) = rev suffix @ ?R" using assms by simp
  have hds: "hd (rev suffix) \<noteq> CHR ''/''"
    by (metis assms(3) False hd_rev last_in_set)
  have a: "dropWhile (\<lambda>c. c = CHR ''/'') (rev suffix @ ?R) = rev suffix @ ?R"
    using False hds by (cases "rev suffix") auto
  have b: "dropWhile (\<lambda>c. c \<noteq> CHR ''/'') (rev suffix @ ?R) = dropWhile (\<lambda>c. c \<noteq> CHR ''/'') ?R"
    using assms dropWhile_not_sep_append [of "CHR ''/''" "rev suffix"] by simp
  have c: "dropWhile (\<lambda>c. c = CHR ''/'') ?R = ?R"
  proof (cases "tl dir = []")
    case True
    then show ?thesis by simp
  next
    case False
    then have "hd ?R = last dir" using assms by (cases dir) (auto simp: hd_rev)
    then show ?thesis using False assms by (cases ?R) auto
  qed
  define upto where "upto = dropWhile (\<lambda>c. c \<noteq> CHR ''/'') ?R"
  have len: "length upto \<le> length dir"
    unfolding upto_def
    using length_dropWhile_le [of "\<lambda>c. c \<noteq> CHR ''/''" ?R] by simp
  have eq: "dropWhile (\<lambda>c. c \<noteq> CHR ''/'')
       (dropWhile (\<lambda>c. c = CHR ''/'') (rev (tl (dir @ suffix)))) = upto"
    unfolding tl a b upto_def ..
  have eq': "dropWhile (\<lambda>c. c \<noteq> CHR ''/'') (dropWhile (\<lambda>c. c = CHR ''/'') ?R) = upto"
    unfolding c upto_def ..
  have hd: "hd (dir @ suffix) = hd dir" using assms by simp
  show ?thesis
    unfolding path_dirname_def Let_def eq eq' hd using assms len by simp
qed

section \<open>The scan pattern\<close>

lemma split_slash_star_pattern:
  "CHR ''/'' \<notin> set e \<Longrightarrow> split_slash (''**/*'' @ e) = [''**'', CHR ''*'' # e]"
  using split_on_append [of "CHR ''/''" "''**''" "CHR ''*'' # e"]
  by (simp add: split_on_no_sep)

lemma match_extension:
  assumes "CHR ''/'' \<notin> set e" and "CHR ''*'' \<notin> set e"
  shows "match_path (split_slash (''**/*'' @ e)) names \<longleftrightarrow>
     names \<noteq> [] \<and> list_all visible names \<and> endsWith (last names) e"
proof -
  have p: "CHR ''*'' # e \<noteq> ''**''" using assms by auto
  have seg: "match_segment (CHR ''*'' # e) n \<longleftrightarrow> visible n \<and> endsWith n e" for n
    using assms by (auto simp: match_segment_def visible_def hidden_def wildcard_star_literal)
  have all: "names \<noteq> [] \<Longrightarrow>
      list_all visible names \<longleftrightarrow> list_all visible (butlast names) \<and> visible (last names)"
    by (cases names rule: rev_cases) auto
  show ?thesis
    unfolding split_slash_star_pattern [OF assms(1)] match_path_globstar [OF p] seg
    using all by auto
qed

lemma glob_matches_iff:
  "glob_matches image_pattern rel \<longleftrightarrow>
     list_all visible (split_slash rel)
     \<and> list_ex (endsWith (last (split_slash rel))) recognized_extensions"
proof -
  have e: "match_path (split_slash (''**/*'' @ e)) (split_slash rel) \<longleftrightarrow>
      list_all visible (split_slash rel) \<and> endsWith (last (split_slash rel)) e"
    if "CHR ''/'' \<notin> set e" and "CHR ''*'' \<notin> set e" for e
    using match_extension [OF that] by simp
  show ?thesis
    unfolding glob_matches_def brace_expand_pattern recognized_extensions_def
    using e [of "''.jpg''"] e [of "''.jpeg''"] e [of "''.png''"] e [of "''.gif''"]
      e [of "''.svg''"]
    by auto
qed

section \<open>What the scan returns\<close>

lemma last_not_sep: "xs \<noteq> [] \<Longrightarrow> c \<notin> set xs \<Longrightarrow> last xs \<noteq> c"
  by (metis last_in_set)

lemma visible_path_shape:
  assumes "list_all visible (split_slash rel)"
  shows "rel \<noteq> []" and "hd rel \<noteq> CHR ''/''" and "last rel \<noteq> CHR ''/''"
proof -
  show ne: "rel \<noteq> []" using assms by (auto simp: visible_def)
  show "hd rel \<noteq> CHR ''/''"
    using assms ne by (cases rel) (auto simp: visible_def)
  show "last rel \<noteq> CHR ''/''"
  proof
    assume "last rel = CHR ''/''"
    then have "rel = butlast rel @ ''/''" using ne by (metis append_butlast_last_id)
    then have "split_slash rel = split_slash (butlast rel) @ [[]]"
      using split_on_append [of "CHR ''/''" "butlast rel" "[]"] by simp
    then show False using assms by (simp add: visible_def)
  qed
qed

lemma last_segment_split:
  assumes "rel \<noteq> []" and "last rel \<noteq> CHR ''/''"
  shows "last_segment rel = last (split_slash rel)"
proof -
  have "hd (rev rel) \<noteq> CHR ''/''" using assms by (simp add: hd_rev)
  then have "dropWhile (\<lambda>c. c = CHR ''/'') (rev rel) = rev rel"
    using assms by (cases "rev rel") auto
  then show ?thesis by (simp add: last_segment_def last_split_on)
qed

lemma last_segment_no_slash: "CHR ''/'' \<notin> set (last_segment p)"
  unfolding last_segment_def by (auto dest: set_takeWhileD)

lemma path_basename_no_slash:
  assumes "p = [] \<or> last p \<noteq> CHR ''/''"
  shows "CHR ''/'' \<notin> set (path_basename p e)"
proof -
  have "takeWhile (\<lambda>c. c = CHR ''/'') (rev p) = []"
    using assms by (cases p rule: rev_cases) auto
  then have "from_last_segment p = last_segment p" by (simp add: from_last_segment_def)
  then show ?thesis
    using last_segment_no_slash [of p]
    by (auto simp: path_basename_def Let_def dest: in_set_takeD)
qed

lemma path_extname_of_name:
  assumes "last_segment p = n @ CHR ''.'' # x" and "n \<noteq> []" and "x \<noteq> []"
    and "CHR ''.'' \<notin> set x"
  shows "path_extname p = CHR ''.'' # x"
proof -
  have "takeWhile (\<lambda>c. c \<noteq> CHR ''.'') (rev x @ CHR ''.'' # rev n)
        = rev x @ takeWhile (\<lambda>c. c \<noteq> CHR ''.'') (CHR ''.'' # rev n)"
    using assms by (intro takeWhile_append2) auto
  then have after: "takeWhile (\<lambda>c. c \<noteq> CHR ''.'') (rev (n @ CHR ''.'' # x)) = rev x"
    by simp
  have "n @ CHR ''.'' # x \<noteq> ''..''"
    using assms by (cases n; cases "tl n") auto
  then show ?thesis
    unfolding path_extname_def Let_def assms(1) after using assms by auto
qed

lemma glob_matches_extname:
  assumes "glob_matches image_pattern rel"
  shows "path_extname rel \<in> set recognized_extensions"
proof -
  let ?name = "last (split_slash rel)"
  have vis: "list_all visible (split_slash rel)" using assms by (simp add: glob_matches_iff)
  then have "visible ?name" by (simp add: list_all_iff)
  then have name: "?name \<noteq> []" "hd ?name \<noteq> CHR ''.''"
    by (auto simp: visible_def hidden_def)
  have seg: "last_segment rel = ?name"
    using visible_path_shape [OF vis] by (simp add: last_segment_split)
  obtain e where e: "e \<in> set recognized_extensions" and "endsWith ?name e"
    using assms by (auto simp: glob_matches_iff list_ex_iff)
  then obtain n where n: "?name = n @ e" by (auto simp: endsWith_iff)
  have "n \<noteq> []" using n name e by (auto simp: recognized_extensions_def)
  then have "path_extname rel = e"
    using e n seg path_extname_of_name [of rel n "tl e"]
    by (auto simp: recognized_extensions_def)
  then show ?thesis using e by simp
qed

lemma path_dirname_visible:
  assumes "list_all visible (split_slash rel)"
  shows "path_dirname rel =
     (if butlast (split_slash rel) = [] then ''.'' else join_slash (butlast (split_slash rel)))"
proof (cases "butlast (split_slash rel) = []")
  case True
  then have "split_slash rel = [last (split_slash rel)]"
    by (metis append_butlast_last_id append_Nil split_on_not_Nil)
  then have "CHR ''/'' \<notin> set rel"
    by (metis join_split_slash join_slash.simps(2) list.set_intros(1) split_on_sep_free)
  then show ?thesis using True by (simp add: path_dirname_no_slash)
next
  case False
  let ?ds = "butlast (split_slash rel)" and ?n = "last (split_slash rel)"
  have segs: "split_slash rel = ?ds @ [?n]" by simp
  have plain: "\<forall>s\<in>set (split_slash rel). s \<noteq> [] \<and> CHR ''/'' \<notin> set s"
    using assms by (auto simp: list_all_iff visible_def dest: split_on_sep_free)
  have "join_slash (?ds @ [?n]) = join_slash ?ds @ CHR ''/'' # ?n"
    using False by (rule join_slash_snoc)
  then have rel: "rel = join_slash ?ds @ CHR ''/'' # ?n"
    using join_split_slash [of rel] by simp
  have "last ?ds \<in> set (split_slash rel)" using False by (metis in_set_butlastD last_in_set)
  then have lds: "last ?ds \<noteq> []" "CHR ''/'' \<notin> set (last ?ds)" using plain by auto
  have d: "join_slash ?ds \<noteq> []" using False lds by (auto simp: join_slash_eq_Nil)
  have "last (join_slash ?ds) = last (last ?ds)" using False lds by (simp add: last_join_slash)
  then have ld: "last (join_slash ?ds) \<noteq> CHR ''/''"
    using last_not_sep [OF lds] by simp
  have n: "?n \<noteq> []" "CHR ''/'' \<notin> set ?n" using plain by auto
  have "path_dirname (join_slash ?ds @ CHR ''/'' # ?n) = join_slash ?ds"
    using d ld n by (rule path_dirname_append_segment)
  then show ?thesis using False rel by simp
qed

lemma path_dirname_visible_last:
  assumes "list_all visible (split_slash rel)"
  shows "last (path_dirname rel) \<noteq> CHR ''/''"
proof (cases "butlast (split_slash rel) = []")
  case True
  then show ?thesis using assms by (simp add: path_dirname_visible)
next
  case False
  let ?ds = "butlast (split_slash rel)"
  have "last ?ds \<in> set (split_slash rel)" using False by (metis in_set_butlastD last_in_set)
  then have lds: "last ?ds \<noteq> []" "CHR ''/'' \<notin> set (last ?ds)"
    using assms by (auto simp: list_all_iff visible_def dest: split_on_sep_free)
  have "last (join_slash ?ds) = last (last ?ds)" using False lds by (simp add: last_join_slash)
  then show ?thesis
    using last_not_sep [OF lds] False assms by (simp add: path_dirname_visible)
qed

section \<open>The last segment of a normalized path\<close>

lemma normalize_step_plain:
  "seg \<noteq> [] \<Longrightarrow> seg \<noteq> ''.'' \<Longrightarrow> seg \<noteq> ''..'' \<Longrightarrow> normalize_step a res seg = res @ [seg]"
  by (simp add: normalize_step_def)

lemma last_render:
  assumes "st \<noteq> []" and "last st \<noteq> []"
  shows "last (render a False st) = last (last st)"
proof -
  have "join_slash st \<noteq> []" using assms by (auto simp: join_slash_eq_Nil)
  then show ?thesis using assms by (simp add: render_def last_join_slash)
qed

lemma last_path_normalize:
  assumes "s \<noteq> []" and "last s \<noteq> CHR ''/''" and "last s \<noteq> CHR ''.''"
  shows "last (path_normalize s) = last s"
proof -
  let ?l = "last (split_slash s)"
  have l: "?l \<noteq> []" "last ?l = last s"
    using last_split_on_not_Nil [OF assms(1,2)] by auto
  then have "?l \<noteq> ''.''" "?l \<noteq> ''..''" using assms(3) by auto
  then have step: "normalize_step a res ?l = res @ [?l]" for a res
    using l by (simp add: normalize_step_plain)
  have "split_slash s = butlast (split_slash s) @ [?l]" by simp
  then have "normalizeString s a = foldl (normalize_step a) [] (butlast (split_slash s)) @ [?l]"
    for a
    unfolding normalizeString_def using step by (metis foldl_Cons foldl_Nil foldl_append)
  then show ?thesis
    using assms l by (simp add: path_normalize_render last_render)
qed

lemma last_path_join:
  assumes "y \<noteq> []" and "last y \<noteq> CHR ''/''" and "last y \<noteq> CHR ''.''"
  shows "last (path_join (xs @ [y])) = last y"
proof -
  let ?joined = "filter (\<lambda>arg. arg \<noteq> []) xs @ [y]"
  have "last (join_slash ?joined) = last y" using assms(1) by (simp add: last_join_slash)
  moreover have "join_slash ?joined \<noteq> []" using assms(1) by (simp add: join_slash_eq_Nil)
  ultimately have "last (path_normalize (join_slash ?joined)) = last y"
    using assms by (simp add: last_path_normalize)
  then show ?thesis using assms(1) by (simp add: path_join_def)
qed

lemma path_dirname_render:
  assumes "normal_form b (st @ [x])"
  shows "path_dirname (render a False (st @ [x])) = render a False st"
proof -
  have x: "x \<noteq> []" "CHR ''/'' \<notin> set x" using assms by (auto simp: normal_form_snoc)
  have st: "normal_form b st" using assms by (simp add: normal_form_snoc)
  show ?thesis
  proof (cases "st = []")
    case True
    then show ?thesis
      using x by (simp add: render_def path_dirname_root_segment path_dirname_no_slash)
  next
    case False
    let ?d = "(if a then ''/'' else []) @ join_slash st"
    have lst: "last st \<noteq> []" "CHR ''/'' \<notin> set (last st)"
      using normal_form_plain [OF st, of "last st"] False by auto
    have j: "join_slash st \<noteq> []" using False lst by (auto simp: join_slash_eq_Nil)
    have "last (join_slash st) = last (last st)" using False lst by (simp add: last_join_slash)
    then have "last ?d \<noteq> CHR ''/''" using j last_not_sep [OF lst] by simp
    moreover have "?d \<noteq> []" using j by simp
    ultimately have "path_dirname (?d @ CHR ''/'' # x) = ?d"
      using x by (intro path_dirname_append_segment)
    moreover have "render a False (st @ [x]) = ?d @ CHR ''/'' # x"
      using False by (simp add: render_def join_slash_snoc)
    moreover have "render a False st = ?d" using False by (simp add: render_def)
    ultimately show ?thesis by simp
  qed
qed

section \<open>Output and input directory under the overwrite strategy\<close>

lemma webp_name:
  fixes base :: string
  defines "bw \<equiv> base @ ''.webp''"
  shows "bw \<noteq> []" and "bw \<noteq> ''.''" and "bw \<noteq> ''..''" and "last bw = CHR ''p''"
  by (auto simp: bw_def)

lemma split_slash_join2:
  "split_slash (if p = [] then q else p @ CHR ''/'' # q)
     = (if p = [] then [] else split_slash p) @ split_slash q"
  by (simp add: split_on_append)

lemma overwrite_same_directory:
  assumes "glob_matches image_pattern file"
  shows "path_dirname (outputPath overwrite publicDir suffix file)
     = path_dirname (path_join [publicDir, file])"
proof -
  obtain ds name where segs: "split_slash file = ds @ [name]"
    by (metis append_butlast_last_id split_on_not_Nil)
  define dir where "dir = path_dirname file"
  define bw where "bw = path_basename file (path_extname file) @ ''.webp''"
  define A where "A = (if publicDir = [] then [] else split_slash publicDir)"
  define Jin where "Jin = (if publicDir = [] then file else publicDir @ CHR ''/'' # file)"
  define Jout where "Jout = (if publicDir = [] then dir @ CHR ''/'' # bw
      else publicDir @ CHR ''/'' # dir @ CHR ''/'' # bw)"
  have vis: "list_all visible (split_slash file)" using assms by (simp add: glob_matches_iff)
  note shape = visible_path_shape [OF vis]
  have dir: "dir = (if ds = [] then ''.'' else join_slash ds)"
    unfolding dir_def using path_dirname_visible [OF vis] segs by simp
  have dir_ne: "dir \<noteq> []" by (simp add: dir_def)
  have bw: "bw \<noteq> []" "bw \<noteq> ''.''" "bw \<noteq> ''..''" "last bw = CHR ''p''"
    unfolding bw_def by (rule webp_name)+
  have bw_plain: "CHR ''/'' \<notin> set bw"
    unfolding bw_def using path_basename_no_slash [of "file" "path_extname file"] shape by simp
  have "visible name" using vis segs by simp
  then have name: "name \<noteq> []" "name \<noteq> ''.''" "name \<noteq> ''..''"
    by (auto simp: visible_def hidden_def)
  have ds_plain: "\<forall>s\<in>set ds. CHR ''/'' \<notin> set s"
    using split_on_sep_free [of _ "CHR ''/''" "file"] segs by simp
  have split_dir: "foldl (normalize_step a) S0 (split_slash dir) = foldl (normalize_step a) S0 ds"
    for a S0
  proof (cases "ds = []")
    case True
    then show ?thesis by (simp add: dir normalize_step_def)
  next
    case False
    then show ?thesis using ds_plain by (simp add: dir split_join_slash)
  qed
  have in_out: "path_join [publicDir, file] = path_normalize Jin"
      "outputPath overwrite publicDir suffix file = path_normalize Jout"
    using shape(1) dir_ne bw(1)
    by (auto simp: path_join_def outputPath_def Let_def Jin_def Jout_def dir_def bw_def)
  have split_in: "split_slash Jin = A @ ds @ [name]"
    unfolding Jin_def A_def split_slash_join2 segs by simp
  have "split_slash (dir @ CHR ''/'' # bw) = split_slash dir @ [bw]"
    using bw_plain by (simp add: split_on_snoc)
  then have split_out: "split_slash Jout = A @ split_slash dir @ [bw]"
    unfolding Jout_def A_def by (simp add: split_on_append)
  define S where "S a = foldl (normalize_step a) (foldl (normalize_step a) [] A) ds" for a
  have nin: "normalizeString Jin a = S a @ [name]" for a
    unfolding normalizeString_def split_in S_def using name by (simp add: normalize_step_plain)
  have nout: "normalizeString Jout a = S a @ [bw]" for a
    unfolding normalizeString_def split_out S_def using bw
    by (simp add: normalize_step_plain split_dir)
  have hd_dir: "hd dir \<noteq> CHR ''/''"
  proof (cases "ds = []")
    case True
    then show ?thesis by (simp add: dir)
  next
    case False
    then have "hd ds \<in> set (split_slash file)" using segs by simp
    then have "visible (hd ds)" "CHR ''/'' \<notin> set (hd ds)"
      using vis by (auto simp: list_all_iff dest: split_on_sep_free)
    then have "hd ds \<noteq> []" "hd (hd ds) \<noteq> CHR ''/''"
      by (simp add: visible_def, metis hd_in_set visible_def)
    then show ?thesis using False by (simp add: dir hd_join_slash)
  qed
  have abs: "(hd Jout = CHR ''/'') = (hd Jin = CHR ''/'')"
    using hd_dir shape(1,2) dir_ne by (auto simp: Jin_def Jout_def)
  have lasts: "last Jin \<noteq> CHR ''/''" "last Jout \<noteq> CHR ''/''" "Jin \<noteq> []" "Jout \<noteq> []"
    using shape bw by (auto simp: Jin_def Jout_def)
  let ?a = "hd Jin = CHR ''/''"
  have "normal_form (\<not> ?a) (S (\<not> ?a) @ [name])"
    using normalizeString_normal [of "\<not> ?a" Jin] by (simp add: nin)
  then have din: "path_dirname (render ?a False (S (\<not> ?a) @ [name])) = render ?a False (S (\<not> ?a))"
    by (rule path_dirname_render)
  have "normal_form (\<not> ?a) (S (\<not> ?a) @ [bw])"
    using normalizeString_normal [of "\<not> ?a" Jout] by (simp add: nout)
  then have dout: "path_dirname (render ?a False (S (\<not> ?a) @ [bw])) = render ?a False (S (\<not> ?a))"
    by (rule path_dirname_render)
  show ?thesis
    unfolding in_out using lasts abs din dout
    by (simp add: path_normalize_render nin nout)
qed

section \<open>The batch loop\<close>





section \<open>The overwrite strategy writes beside the originals\<close>

lemma last_outputPath: "last (outputPath strat publicDir suffix file) = CHR ''p''"
proof -
  let ?bw = "path_basename file (path_extname file) @ ''.webp''"
  have bw: "?bw \<noteq> []" "last ?bw \<noteq> CHR ''/''" "last ?bw \<noteq> CHR ''.''" "last ?bw = CHR ''p''"
    by simp_all
  have "last (path_join ([publicDir, path_dirname file] @ [?bw])) = last ?bw"
    using bw(1-3) by (rule last_path_join)
  moreover have "last (path_join ([outputDirPath publicDir suffix file] @ [?bw])) = last ?bw"
    using bw(1-3) by (rule last_path_join)
  ultimately show ?thesis by (cases strat) (simp_all add: outputPath_def Let_def)
qed

lemma last_scanned_input:
  assumes "glob_matches image_pattern file"
  shows "last (path_join [publicDir, file]) \<noteq> CHR ''p''"
proof -
  have vis: "list_all visible (split_slash file)" using assms by (simp add: glob_matches_iff)
  note shape = visible_path_shape [OF vis]
  let ?name = "last (split_slash file)"
  have name: "?name \<noteq> []" "last ?name = last file"
    using last_split_on_not_Nil [OF shape(1,3)] by auto
  obtain e where "e \<in> set recognized_extensions" and "endsWith ?name e"
    using assms by (auto simp: glob_matches_iff list_ex_iff)
  then obtain n where "?name = n @ e" and "e \<in> set recognized_extensions"
    by (auto simp: endsWith_iff)
  then have "last ?name = CHR ''g'' \<or> last ?name = CHR ''f''"
    by (auto simp: recognized_extensions_def)
  then have l: "last file = CHR ''g'' \<or> last file = CHR ''f''" using name by simp
  then have "last file \<noteq> CHR ''/''" "last file \<noteq> CHR ''.''" by auto
  then have "last (path_join ([publicDir] @ [file])) = last file"
    using shape(1) by (intro last_path_join)
  then show ?thesis using l by auto
qed

lemma process_file_overwrite:
  "process_file env publicDir overwrite suffix st file =
     (None, snd (process_file env publicDir overwrite suffix st file))
   \<and> world (snd (process_file env publicDir overwrite suffix st file)) =
       fst (sharp_webp_toFile env (world st) (path_join [publicDir, file]) 80
             (outputPath overwrite publicDir suffix file))"
  by (auto simp: process_file_def optimizeImage_def Let_def split: prod.splits option.splits)

lemma overwrite_loop_frame:
  assumes "writes_only_output read env"
    and "\<forall>f\<in>set fs. outputPath overwrite publicDir suffix f \<noteq> p"
  shows "read (world (snd (optimize_loop env publicDir overwrite suffix st fs))) p
     = read (world st) p"
  using assms(2)
proof (induction fs arbitrary: st)
  case Nil
  then show ?case by simp
next
  case (Cons f fs)
  let ?r = "process_file env publicDir overwrite suffix st f"
  have r: "?r = (None, snd ?r)"
    and w: "world (snd ?r) = fst (sharp_webp_toFile env (world st) (path_join [publicDir, f]) 80
             (outputPath overwrite publicDir suffix f))"
    using process_file_overwrite [of env publicDir suffix st f] by auto
  have "p \<noteq> outputPath overwrite publicDir suffix f" using Cons.prems by auto
  then have "read (world (snd ?r)) p = read (world st) p"
    unfolding w using assms(1) by (simp add: writes_only_output_def)
  moreover have "read (world (snd (optimize_loop env publicDir overwrite suffix (snd ?r) fs))) p
      = read (world (snd ?r)) p"
    using Cons.IH Cons.prems by simp
  moreover have "optimize_loop env publicDir overwrite suffix st (f # fs)
      = optimize_loop env publicDir overwrite suffix (snd ?r) fs"
    using r by (metis (no_types, lifting) case_prod_conv optimize_loop.simps(2) option.simps(4))
  ultimately show ?case by simp
qed

lemma overwrite_never_throws:
  "fst (optimize_loop env publicDir overwrite suffix st fs) = None"
proof (induction fs arbitrary: st)
  case Nil
  then show ?case by simp
next
  case (Cons f fs)
  let ?r = "process_file env publicDir overwrite suffix st f"
  have "?r = (None, snd ?r)" using process_file_overwrite [of env publicDir suffix st f] by auto
  then have "optimize_loop env publicDir overwrite suffix st (f # fs)
      = optimize_loop env publicDir overwrite suffix (snd ?r) fs"
    by (metis (no_types, lifting) case_prod_conv optimize_loop.simps(2) option.simps(4))
  then show ?case using Cons.IH by simp
qed

lemma disk_writes_only_output:
  "writes_only_output (\<lambda>d. map_of (contents d)) (disk_env codec)"
  by (auto simp: writes_only_output_def disk_env_def disk_sharp_def update_conv'
      split: option.splits)

lemma outputPath_depends_on_dir_and_base:
  assumes "path_dirname f = path_dirname g"
    and "path_basename f (path_extname f) = path_basename g (path_extname g)"
  shows "outputPath strat publicDir suffix f = outputPath strat publicDir suffix g"
    and "outputDirPath publicDir suffix f = outputDirPath publicDir suffix g"
  using assms by (simp_all add: outputPath_def outputDirPath_def Let_def)

lemma nested_scanned_path:
  assumes "glob_matches image_pattern f" and "CHR ''/'' \<in> set f"
  shows "path_dirname f \<noteq> ''.''" and "f = path_dirname f @ ''/'' @ last_segment f"
proof -
  have vis: "list_all visible (split_slash f)" using assms by (simp add: glob_matches_iff)
  note shape = visible_path_shape [OF vis]
  obtain ds name where segs: "split_slash f = ds @ [name]"
    by (metis append_butlast_last_id split_on_not_Nil)
  have ds: "ds \<noteq> []"
  proof
    assume "ds = []"
    then have "f = name" using segs join_split_slash [of f] by simp
    moreover have "CHR ''/'' \<notin> set name"
      using split_on_sep_free [of name "CHR ''/''" f] segs by simp
    ultimately show False using assms(2) by simp
  qed
  have plain: "\<forall>s\<in>set ds. CHR ''/'' \<notin> set s"
    using split_on_sep_free [of _ "CHR ''/''" f] segs by simp
  have dir: "path_dirname f = join_slash ds"
    using path_dirname_visible [OF vis] segs ds by simp
  show "path_dirname f \<noteq> ''.''"
  proof
    assume "path_dirname f = ''.''"
    then have "split_slash (join_slash ds) = [''.'']" using dir by simp
    then have "ds = [''.'']" using ds plain by (simp add: split_join_slash)
    then have "visible ''.''" using vis segs by simp
    then show False by (simp add: visible_def hidden_def)
  qed
  have "last_segment f = name" using shape segs by (simp add: last_segment_split)
  moreover have "f = join_slash ds @ CHR ''/'' # name"
    using join_split_slash [of f] segs ds by (simp add: join_slash_snoc)
  ultimately show "f = path_dirname f @ ''/'' @ last_segment f" using dir by simp
qed

lemma path_join_not_Nil [simp]: "path_join args \<noteq> []"
  by (simp add: path_join_def Let_def)

lemma path_join_nested:
  assumes "p \<noteq> []" and "b \<noteq> []"
  shows "path_join [path_join [p, x], b] = path_join [p, x, b]"
proof (cases "x = []")
  case True
  then show ?thesis
    using assms path_normalize_law [of p b] by (simp add: path_join_def)
next
  case False
  then show ?thesis
    using assms path_normalize_law [of "p @ CHR ''/'' # x" b] by (simp add: path_join_def)
qed

lemma sibling_directory:
  assumes "glob_matches image_pattern img" and "suffix \<noteq> []" and "CHR ''/'' \<notin> set suffix"
  shows "path_dirname (path_dirname img @ suffix) = path_dirname (path_dirname img)"
    and "\<not> inside (path_dirname img) (path_dirname img @ suffix)"
proof -
  have vis: "list_all visible (split_slash img)" using assms by (simp add: glob_matches_iff)
  have "last (path_dirname img) \<noteq> CHR ''/''" using vis by (rule path_dirname_visible_last)
  then show "path_dirname (path_dirname img @ suffix) = path_dirname (path_dirname img)"
    using assms(3) by (intro path_dirname_append_suffix) simp_all
  have "hd suffix \<noteq> CHR ''/''" using assms(2,3) by (metis hd_in_set)
  then have "take (Suc (length (path_dirname img))) (path_dirname img @ suffix)
      \<noteq> path_dirname img @ ''/''"
    using assms(2) by (cases suffix) auto
  then show "\<not> inside (path_dirname img) (path_dirname img @ suffix)"
    using assms(2) by (simp add: inside_def)
qed

lemma relative_to_Some: "relative_to root p = Some rel \<longleftrightarrow> p = root @ ''/'' @ rel"
proof
  assume "relative_to root p = Some rel"
  then have "take (Suc (length root)) p = root @ ''/''" "rel = drop (Suc (length root)) p"
    by (auto simp: relative_to_def split: if_splits)
  then show "p = root @ ''/'' @ rel"
    by (metis append_assoc append_take_drop_id)
next
  assume "p = root @ ''/'' @ rel"
  then show "relative_to root p = Some rel" by (simp add: relative_to_def)
qed

lemma in_set_map_filter:
  "x \<in> set (List.map_filter f xs) \<longleftrightarrow> (\<exists>y\<in>set xs. f y = Some x)"
  by (induction xs) (auto simp: map_filter_simps split: option.splits)

lemma disk_glob_sync_iff:
  "rel \<in> set (disk_glob_sync d pattern root) \<longleftrightarrow>
     map_of (contents d) (root @ ''/'' @ rel) \<noteq> None \<and> glob_matches pattern rel"
proof -
  have "rel \<in> set (List.map_filter (relative_to root) (map fst (contents d)))
      \<longleftrightarrow> root @ ''/'' @ rel \<in> fst ` set (contents d)"
    by (auto simp: in_set_map_filter relative_to_Some image_iff)
  then show ?thesis
    by (auto simp: disk_glob_sync_def map_of_eq_None_iff)
qed

lemma main_cases:
  "main env cwd ans w =
     (if \<not> existsSync env w (publicDir_of cwd) then
        (Some (Exit 1), w, [Print_banner, Public_not_found])
      else if glob_sync env w image_pattern (publicDir_of cwd) = [] then
        (None, w, [Print_banner, Found_public (publicDir_of cwd), No_images_found])
      else if \<not> confirm ans then
        (Some (Exit 0), w,
         dialogue ans (publicDir_of cwd) (glob_sync env w image_pattern (publicDir_of cwd))
         @ [Operation_cancelled])
      else
        (case run_batch env (publicDir_of cwd) ans w
                (glob_sync env w image_pattern (publicDir_of cwd)) of
           (Some err, st) \<Rightarrow> (Some (Throw err), world st, console st)
         | (None, st) \<Rightarrow> (None, world st, console st @ summary (strategy ans) st)))"
  by (simp add: main_def Let_def)

lemma throws_main:
  "throws (fst (main env cwd ans w)) \<longleftrightarrow>
     existsSync env w (publicDir_of cwd)
     \<and> glob_sync env w image_pattern (publicDir_of cwd) \<noteq> []
     \<and> confirm ans
     \<and> fst (run_batch env (publicDir_of cwd) ans w
              (glob_sync env w image_pattern (publicDir_of cwd))) \<noteq> None"
  unfolding main_cases
  by (auto simp: throws_def split: prod.splits option.splits)




section \<open>The claims\<close>

text \<open>
  C9. With the empty string as suffix, the new-folder strategy resolves every file to
  the output path of the overwrite strategy: the file's own directory under the scan
  root, with the base name and the extension \<open>.webp\<close>. This holds for every scan root
  and every file name.
\<close>

theorem newfolder_empty_suffix:
  "outputPath new_folder publicDir [] file = outputPath overwrite publicDir suffix file"
proof -
  define dir where "dir = path_dirname file"
  define bw where "bw = path_basename file (path_extname file) @ ''.webp''"
  have dir: "dir \<noteq> []" and bw: "bw \<noteq> []" by (simp_all add: dir_def bw_def)
  have lhs: "outputPath new_folder publicDir [] file
      = path_join [path_join [publicDir, if dir = ''.'' then [] else dir], bw]"
    by (simp add: outputPath_def outputDirPath_def outputDirName_def dir_def bw_def Let_def)
  have rhs: "outputPath overwrite publicDir suffix file = path_join [publicDir, dir, bw]"
    by (simp add: outputPath_def dir_def bw_def Let_def)
  show ?thesis
  proof (cases "dir = ''.''")
    case True
    show ?thesis
    proof (cases "publicDir = []")
      case True
      with \<open>dir = ''.''\<close> bw show ?thesis
        unfolding lhs rhs by (simp add: path_join_def)
    next
      case False
      with \<open>dir = ''.''\<close> bw show ?thesis
        unfolding lhs rhs
        using path_normalize_law [of publicDir bw] normalize_skip_dot [of publicDir bw]
        by (simp add: path_join_def)
    qed
  next
    case False
    show ?thesis
    proof (cases "publicDir = []")
      case True
      with \<open>dir \<noteq> ''.''\<close> dir bw show ?thesis
        unfolding lhs rhs
        using path_normalize_law [of dir bw]
        by (simp add: path_join_def)
    next
      case False
      with \<open>dir \<noteq> ''.''\<close> dir bw show ?thesis
        unfolding lhs rhs
        using path_normalize_law [of "publicDir @ CHR ''/'' # dir" bw]
        by (simp add: path_join_def)
    qed
  qed
qed

theorem newfolder_empty_suffix_witness:
  "outputPath new_folder ''/app/public'' [] ''images/hero.jpg''
     = ''/app/public/images/hero.webp''
   \<and> outputPath overwrite ''/app/public'' ''_optimized'' ''images/hero.jpg''
     = ''/app/public/images/hero.webp''"
  using newfolder_empty_suffix [of "''/app/public''" "''images/hero.jpg''" "''_optimized''"]
  by code_simp

text \<open>
  C4. Under the overwrite strategy the output path of a file is the scan root joined
  with the directory of the file and its base name with extension \<open>.webp\<close>. For every
  file the scan can return, at any depth, the directory of the output is the directory
  of the input. The originals stay as they are: when a conversion touches no path but
  its output, the loop leaves every file the scan can return under the root unchanged,
  whatever files were selected.
\<close>

theorem overwrite_beside_original:
  "outputPath overwrite publicDir suffix img
     = path_join [publicDir, path_dirname img,
         path_basename img (path_extname img) @ ''.webp'']
   \<and> (glob_matches image_pattern img \<longrightarrow>
        path_dirname (outputPath overwrite publicDir suffix img)
          = path_dirname (path_join [publicDir, img]))
   \<and> (writes_only_output read env \<and> glob_matches image_pattern original \<longrightarrow>
        read (world (snd (optimize_loop env publicDir overwrite suffix st selected)))
            (path_join [publicDir, original])
          = read (world st) (path_join [publicDir, original]))"
proof (intro conjI impI)
  show "outputPath overwrite publicDir suffix img
     = path_join [publicDir, path_dirname img,
         path_basename img (path_extname img) @ ''.webp'']"
    by (simp add: outputPath_def Let_def)
next
  assume "glob_matches image_pattern img"
  then show "path_dirname (outputPath overwrite publicDir suffix img)
          = path_dirname (path_join [publicDir, img])"
    by (rule overwrite_same_directory)
next
  assume a: "writes_only_output read env \<and> glob_matches image_pattern original"
  have "outputPath overwrite publicDir suffix f \<noteq> path_join [publicDir, original]" for f
    using last_outputPath [of overwrite publicDir suffix f]
      last_scanned_input [of original publicDir] a
    by metis
  then show "read (world (snd (optimize_loop env publicDir overwrite suffix st selected)))
            (path_join [publicDir, original])
          = read (world st) (path_join [publicDir, original])"
    using a by (intro overwrite_loop_frame) auto
qed

theorem overwrite_beside_original_witness:
  "outputPath overwrite ''/app/public'' ''_optimized'' ''images/a/hero.jpg''
     = ''/app/public/images/a/hero.webp''
   \<and> path_dirname (outputPath overwrite ''/app/public'' ''_optimized'' ''images/a/hero.jpg'')
     = ''/app/public/images/a''
   \<and> map_of (contents (world (snd (optimize_loop (disk_env toy_codec) ''/app/public'' overwrite
        ''_optimized''
        \<lparr>world = \<lparr>directories = [''/app/public''],
                   contents = [(''/app/public/images/a/hero.jpg'', ''H'')]\<rparr>,
         successCount = 0, failCount = 0, console = []\<rparr>
        [''images/a/hero.jpg'']))))
      ''/app/public/images/a/hero.jpg'' = Some ''H''"
proof -
  have g: "glob_matches image_pattern ''images/a/hero.jpg''" by code_simp
  have d: "path_dirname (path_join [''/app/public'', ''images/a/hero.jpg''])
      = ''/app/public/images/a''" by code_simp
  have i: "path_join [''/app/public'', ''images/a/hero.jpg''] = ''/app/public/images/a/hero.jpg''"
    by code_simp
  have o: "path_join [''/app/public'', path_dirname ''images/a/hero.jpg'',
         path_basename ''images/a/hero.jpg'' (path_extname ''images/a/hero.jpg'') @ ''.webp'']
     = ''/app/public/images/a/hero.webp''" by code_simp
  have d2: "path_dirname ''/app/public/images/a/hero.webp'' = ''/app/public/images/a''"
    by code_simp
  show ?thesis
    using overwrite_beside_original [where publicDir = "''/app/public''"
        and suffix = "''_optimized''" and img = "''images/a/hero.jpg''"
        and original = "''images/a/hero.jpg''" and read = "\<lambda>d. map_of (contents d)"
        and env = "disk_env toy_codec" and selected = "[''images/a/hero.jpg'']"
        and st = "\<lparr>world = \<lparr>directories = [''/app/public''],
                   contents = [(''/app/public/images/a/hero.jpg'', ''H'')]\<rparr>,
         successCount = 0, failCount = 0, console = []\<rparr>"]
      g d d2 i o disk_writes_only_output [of toy_codec]
    by (simp del: optimize_loop.simps)
qed

text \<open>
  C10. The output path is not injective. Two files with the same directory and the same
  base name (they can differ in their extension only, as \<open>a.jpg\<close> and \<open>a.png\<close> do)
  resolve to the same output path under either strategy. On the disk in memory, when
  both conversions succeed, the loop reports two successes and no error, and the shared
  output holds the encoding of the file processed last.
\<close>

theorem later_conversion_overwrites:
  assumes "path_dirname f = path_dirname g"
    and "path_basename f (path_extname f) = path_basename g (path_extname g)"
  shows "outputPath strat publicDir suffix f = outputPath strat publicDir suffix g
   \<and> (map_of (contents (world st)) (path_join [publicDir, f]) = Some bytes_f
        \<and> codec bytes_f 80 = Some webp_f
        \<and> map_of (contents (world st)) (path_join [publicDir, g]) = Some bytes_g
        \<and> codec bytes_g 80 = Some webp_g
        \<and> outputPath strat publicDir suffix f \<noteq> path_join [publicDir, g]
        \<and> (strat = overwrite
             \<or> map_of (contents (world st)) (outputDirPath publicDir suffix f) = None
               \<and> outputDirPath publicDir suffix f \<noteq> outputPath strat publicDir suffix f)
      \<longrightarrow> (\<exists>st'. optimize_loop (disk_env codec) publicDir strat suffix st [f, g] = (None, st')
             \<and> successCount st' = successCount st + 2
             \<and> failCount st' = failCount st
             \<and> console st' = console st @ [Optimizing f, Optimizing g]
             \<and> map_of (contents (world st')) (outputPath strat publicDir suffix f)
                 = Some webp_g))"
proof (intro conjI impI)
  show same: "outputPath strat publicDir suffix f = outputPath strat publicDir suffix g"
    using assms by (rule outputPath_depends_on_dir_and_base)
  have dirs: "outputDirPath publicDir suffix f = outputDirPath publicDir suffix g"
    using assms by (rule outputPath_depends_on_dir_and_base)
  assume h: "map_of (contents (world st)) (path_join [publicDir, f]) = Some bytes_f
        \<and> codec bytes_f 80 = Some webp_f
        \<and> map_of (contents (world st)) (path_join [publicDir, g]) = Some bytes_g
        \<and> codec bytes_g 80 = Some webp_g
        \<and> outputPath strat publicDir suffix f \<noteq> path_join [publicDir, g]
        \<and> (strat = overwrite
             \<or> map_of (contents (world st)) (outputDirPath publicDir suffix f) = None
               \<and> outputDirPath publicDir suffix f \<noteq> outputPath strat publicDir suffix f)"
  let ?out = "outputPath strat publicDir suffix f"
  have neq: "path_join [publicDir, g] \<noteq> ?out" using h by auto
  have neq_dir: "strat = new_folder \<Longrightarrow> ?out \<noteq> outputDirPath publicDir suffix f"
    using h by auto
  show "\<exists>st'. optimize_loop (disk_env codec) publicDir strat suffix st [f, g] = (None, st')
             \<and> successCount st' = successCount st + 2
             \<and> failCount st' = failCount st
             \<and> console st' = console st @ [Optimizing f, Optimizing g]
             \<and> map_of (contents (world st')) ?out = Some webp_g"
  proof (cases strat)
    case overwrite
    then show ?thesis
      using h neq same [symmetric]
      by (simp add: process_file_def optimizeImage_def disk_env_def disk_sharp_def Let_def
          update_conv')
  next
    case new_folder
    then show ?thesis
      using h neq neq_dir same [symmetric] dirs [symmetric]
      by (simp add: process_file_def optimizeImage_def disk_env_def disk_sharp_def
          disk_ensureDir_def Let_def update_conv')
  qed
qed

theorem later_conversion_overwrites_witness:
  "''a.jpg'' \<noteq> ''a.png''
   \<and> outputPath overwrite ''/app/public'' ''_optimized'' ''a.jpg''
       = outputPath overwrite ''/app/public'' ''_optimized'' ''a.png''
   \<and> outputPath new_folder ''/app/public'' ''_optimized'' ''a.jpg''
       = outputPath new_folder ''/app/public'' ''_optimized'' ''a.png''
   \<and> (\<exists>st'. optimize_loop (disk_env toy_codec) ''/app/public'' new_folder ''_optimized''
          \<lparr>world = \<lparr>directories = [''/app/public''],
                     contents = [(''/app/public/a.jpg'', ''JPG''),
                                 (''/app/public/a.png'', ''PNG'')]\<rparr>,
           successCount = 0, failCount = 0, console = []\<rparr>
          [''a.jpg'', ''a.png''] = (None, st')
        \<and> successCount st' = 2 \<and> failCount st' = 0
        \<and> console st' = [Optimizing ''a.jpg'', Optimizing ''a.png'']
        \<and> map_of (contents (world st')) ''/app/public/_optimized/a.webp''
            = Some ''webp:PNG'')"
proof -
  let ?st = "\<lparr>world = \<lparr>directories = [''/app/public''],
                     contents = [(''/app/public/a.jpg'', ''JPG''),
                                 (''/app/public/a.png'', ''PNG'')]\<rparr>,
           successCount = 0, failCount = 0, console = []\<rparr>"
  have d: "path_dirname ''a.jpg'' = path_dirname ''a.png''" by code_simp
  have b: "path_basename ''a.jpg'' (path_extname ''a.jpg'')
      = path_basename ''a.png'' (path_extname ''a.png'')" by code_simp
  have o: "outputPath new_folder ''/app/public'' ''_optimized'' ''a.jpg''
      = ''/app/public/_optimized/a.webp''" by code_simp
  have od: "outputDirPath ''/app/public'' ''_optimized'' ''a.jpg'' = ''/app/public/_optimized''"
    by code_simp
  have j: "path_join [''/app/public'', ''a.jpg''] = ''/app/public/a.jpg''"
      "path_join [''/app/public'', ''a.png''] = ''/app/public/a.png''" by code_simp+
  have c: "toy_codec ''JPG'' 80 = Some ''webp:JPG''" "toy_codec ''PNG'' 80 = Some ''webp:PNG''"
    by (simp_all add: toy_codec_def)
  note T = later_conversion_overwrites [OF d b, where publicDir = "''/app/public''"
      and suffix = "''_optimized''" and codec = toy_codec and st = ?st
      and bytes_f = "''JPG''" and webp_f = "''webp:JPG''"
      and bytes_g = "''PNG''" and webp_g = "''webp:PNG''"]
  have "outputPath overwrite ''/app/public'' ''_optimized'' ''a.jpg''
       = outputPath overwrite ''/app/public'' ''_optimized'' ''a.png''"
    using T [where strat = overwrite] by (rule conjunct1)
  moreover have "\<exists>st'. optimize_loop (disk_env toy_codec) ''/app/public'' new_folder
          ''_optimized'' ?st [''a.jpg'', ''a.png''] = (None, st')
        \<and> successCount st' = 2 \<and> failCount st' = 0
        \<and> console st' = [Optimizing ''a.jpg'', Optimizing ''a.png'']
        \<and> map_of (contents (world st')) ''/app/public/_optimized/a.webp''
            = Some ''webp:PNG''"
    using T [where strat = new_folder, THEN conjunct2, unfolded o od j] c
    by (simp del: optimize_loop.simps add: numeral_2_eq_2)
  moreover have "outputPath new_folder ''/app/public'' ''_optimized'' ''a.jpg''
       = outputPath new_folder ''/app/public'' ''_optimized'' ''a.png''"
    using T [where strat = new_folder] by (rule conjunct1)
  ultimately show ?thesis by simp
qed

text \<open>
  C6. Selection by folder is a membership filter on the containing directory. A scanned
  file is selected if and only if \<open>path.dirname\<close> of it is among the chosen
  directories. A file at the root has the directory \<open>.\<close>, which stands for the root;
  a nested file the scan can return has the path before its file name as directory, and
  never \<open>.\<close>. The filter keeps the order of the scan, and it is what \<open>main\<close> selects
  in folder mode.
\<close>

theorem by_folder_membership:
  "(f \<in> set (select_by_folder imageFiles dirs)
      \<longleftrightarrow> f \<in> set imageFiles \<and> path_dirname f \<in> set dirs)
   \<and> (CHR ''/'' \<notin> set f \<longrightarrow> path_dirname f = ''.'')
   \<and> (glob_matches image_pattern f \<and> CHR ''/'' \<in> set f \<longrightarrow>
        path_dirname f \<noteq> ''.'' \<and> f = path_dirname f @ ''/'' @ last_segment f)
   \<and> select_by_folder (xs @ ys) dirs = select_by_folder xs dirs @ select_by_folder ys dirs
   \<and> (selectionMode ans = SelectFolder \<longrightarrow>
        fst (select_files ans imageFiles) = select_by_folder imageFiles (selectedDirs ans))"
proof (intro conjI impI)
  show "f \<in> set (select_by_folder imageFiles dirs)
      \<longleftrightarrow> f \<in> set imageFiles \<and> path_dirname f \<in> set dirs"
    by (simp add: select_by_folder_def)
  show "select_by_folder (xs @ ys) dirs = select_by_folder xs dirs @ select_by_folder ys dirs"
    by (simp add: select_by_folder_def)
next
  assume "CHR ''/'' \<notin> set f"
  then show "path_dirname f = ''.''" by (rule path_dirname_no_slash)
next
  assume "glob_matches image_pattern f \<and> CHR ''/'' \<in> set f"
  then show "path_dirname f \<noteq> ''.''" and "f = path_dirname f @ ''/'' @ last_segment f"
    using nested_scanned_path [of f] by auto
next
  assume "selectionMode ans = SelectFolder"
  then show "fst (select_files ans imageFiles)
      = select_by_folder imageFiles (selectedDirs ans)"
    by (simp add: select_files_def)
qed

theorem by_folder_membership_witness:
  "select_by_folder [''logo.png'', ''icons/home.png'', ''images/hero.jpg'', ''images/a/b.gif'']
       [''images'', ''.'']
     = [''logo.png'', ''images/hero.jpg'']
   \<and> path_dirname ''logo.png'' = ''.''
   \<and> path_dirname ''images/a/b.gif'' = ''images/a''
   \<and> ''images/a/b.gif'' = path_dirname ''images/a/b.gif'' @ ''/'' @ last_segment ''images/a/b.gif''
   \<and> ''images/a/b.gif'' \<notin> set (select_by_folder
         [''logo.png'', ''icons/home.png'', ''images/hero.jpg'', ''images/a/b.gif'']
         [''images'', ''.''])
   \<and> fst (select_files
         \<lparr>selectionMode = SelectFolder, selectedDirs = [''images'', ''.''], files = [],
          strategy = overwrite, customSuffix = [], confirm = True\<rparr>
         [''logo.png'', ''icons/home.png'', ''images/hero.jpg'', ''images/a/b.gif''])
     = [''logo.png'', ''images/hero.jpg'']"
proof -
  let ?scan = "[''logo.png'', ''icons/home.png'', ''images/hero.jpg'', ''images/a/b.gif'']"
  let ?ans = "\<lparr>selectionMode = SelectFolder, selectedDirs = [''images'', ''.''], files = [],
          strategy = overwrite, customSuffix = [], confirm = True\<rparr>"
  have g: "glob_matches image_pattern ''images/a/b.gif''" by code_simp
  have s: "CHR ''/'' \<in> set ''images/a/b.gif''" "CHR ''/'' \<notin> set ''logo.png''" by simp_all
  have d: "path_dirname ''images/a/b.gif'' = ''images/a''" by code_simp
  have r: "select_by_folder ?scan [''images'', ''.''] = [''logo.png'', ''images/hero.jpg'']"
    by code_simp
  note T = by_folder_membership [where imageFiles = ?scan and dirs = "[''images'', ''.'']"
      and f = "''images/a/b.gif''" and ans = ?ans]
  have "''images/a/b.gif'' \<notin> set (select_by_folder ?scan [''images'', ''.''])"
    using T [THEN conjunct1] d by simp
  moreover have "path_dirname ''logo.png'' = ''.''"
    using by_folder_membership [where f = "''logo.png''", THEN conjunct2, THEN conjunct1] s
    by simp
  moreover have "''images/a/b.gif''
      = path_dirname ''images/a/b.gif'' @ ''/'' @ last_segment ''images/a/b.gif''"
    using T [THEN conjunct2, THEN conjunct2, THEN conjunct1] g s by blast
  moreover have "fst (select_files ?ans ?scan) = [''logo.png'', ''images/hero.jpg'']"
    using T [THEN conjunct2, THEN conjunct2, THEN conjunct2, THEN conjunct2] r by simp
  ultimately show ?thesis using d r by simp
qed

text \<open>
  C2. Under the new-folder strategy the output path of a file is the scan root joined
  with the output directory name and the base name with extension \<open>.webp\<close>; the
  directory name is the suffix for a file at the root and the directory of the file with
  the suffix appended otherwise. The suffix is free text: with a suffix that holds a
  separator, such as \<open>/webp\<close>, the output directory lies inside the directory of the
  file, so the claim does not hold for every suffix. For a suffix that is not empty and
  holds no separator, and a file the scan can return, the output directory has the parent
  of the file's directory and does not lie inside it.
\<close>

theorem new_folder_nested_counterexample:
  "glob_matches image_pattern ''images/hero.jpg''
   \<and> path_dirname ''images/hero.jpg'' = ''images''
   \<and> outputDirName ''images'' ''/webp'' = ''images/webp''
   \<and> inside ''images'' (outputDirName ''images'' ''/webp'')
   \<and> outputPath new_folder ''/app/public'' ''/webp'' ''images/hero.jpg''
       = ''/app/public/images/webp/hero.webp''"
  by code_simp

theorem new_folder_output:
  "outputPath new_folder (publicDir_of cwd) suffix img
     = path_join [publicDir_of cwd, outputDirName (path_dirname img) suffix,
         path_basename img (path_extname img) @ ''.webp'']
   \<and> outputDirName ''.'' suffix = suffix
   \<and> (dir \<noteq> ''.'' \<longrightarrow> outputDirName dir suffix = dir @ suffix)
   \<and> (glob_matches image_pattern img \<and> path_dirname img \<noteq> ''.''
        \<and> suffix \<noteq> [] \<and> CHR ''/'' \<notin> set suffix \<longrightarrow>
        path_dirname (outputDirName (path_dirname img) suffix)
          = path_dirname (path_dirname img)
        \<and> \<not> inside (path_dirname img) (outputDirName (path_dirname img) suffix))"
proof (intro conjI impI)
  have "publicDir_of cwd \<noteq> []" by (simp add: publicDir_of_def)
  then show "outputPath new_folder (publicDir_of cwd) suffix img
     = path_join [publicDir_of cwd, outputDirName (path_dirname img) suffix,
         path_basename img (path_extname img) @ ''.webp'']"
    by (simp add: outputPath_def outputDirPath_def Let_def path_join_nested)
  show "outputDirName ''.'' suffix = suffix" by (simp add: outputDirName_def)
next
  assume "dir \<noteq> ''.''"
  then show "outputDirName dir suffix = dir @ suffix" by (simp add: outputDirName_def)
next
  assume a: "glob_matches image_pattern img \<and> path_dirname img \<noteq> ''.''
        \<and> suffix \<noteq> [] \<and> CHR ''/'' \<notin> set suffix"
  then have n: "outputDirName (path_dirname img) suffix = path_dirname img @ suffix"
    by (simp add: outputDirName_def)
  show "path_dirname (outputDirName (path_dirname img) suffix)
          = path_dirname (path_dirname img)"
    unfolding n using a sibling_directory(1) by blast
  show "\<not> inside (path_dirname img) (outputDirName (path_dirname img) suffix)"
    unfolding n using a sibling_directory(2) by blast
qed

theorem new_folder_output_witness:
  "outputPath new_folder (publicDir_of ''/app'') ''_optimized'' ''images/hero.jpg''
     = ''/app/public/images_optimized/hero.webp''
   \<and> outputPath new_folder (publicDir_of ''/app'') ''_optimized'' ''logo.png''
     = ''/app/public/_optimized/logo.webp''
   \<and> outputDirName ''images'' ''_optimized'' = ''images_optimized''
   \<and> path_dirname ''images_optimized'' = path_dirname ''images''
   \<and> \<not> inside ''images'' ''images_optimized''"
proof -
  have g: "glob_matches image_pattern ''images/hero.jpg''" by code_simp
  have d: "path_dirname ''images/hero.jpg'' = ''images''" "path_dirname ''logo.png'' = ''.''"
    by code_simp+
  have s: "''_optimized'' \<noteq> []" "CHR ''/'' \<notin> set ''_optimized''" "''images'' \<noteq> ''.''"
    by simp_all
  have j1: "path_join [publicDir_of ''/app'', ''images_optimized'',
      path_basename ''images/hero.jpg'' (path_extname ''images/hero.jpg'') @ ''.webp'']
      = ''/app/public/images_optimized/hero.webp''" by code_simp
  have j2: "path_join [publicDir_of ''/app'', ''_optimized'',
      path_basename ''logo.png'' (path_extname ''logo.png'') @ ''.webp'']
      = ''/app/public/_optimized/logo.webp''" by code_simp
  note T = new_folder_output [where cwd = "''/app''" and suffix = "''_optimized''"
      and img = "''images/hero.jpg''" and dir = "''images''", unfolded d]
  note U = new_folder_output [where cwd = "''/app''" and suffix = "''_optimized''"
      and img = "''logo.png''" and dir = "''images''", unfolded d]
  have n: "outputDirName ''images'' ''_optimized'' = ''images_optimized''"
    using T [THEN conjunct2, THEN conjunct2, THEN conjunct1] s by simp
  have r: "outputDirName ''.'' ''_optimized'' = ''_optimized''"
    using U [THEN conjunct2, THEN conjunct1] .
  have "outputPath new_folder (publicDir_of ''/app'') ''_optimized'' ''images/hero.jpg''
     = ''/app/public/images_optimized/hero.webp''"
    using T [THEN conjunct1] n j1 by simp
  moreover have "outputPath new_folder (publicDir_of ''/app'') ''_optimized'' ''logo.png''
     = ''/app/public/_optimized/logo.webp''"
    using U [THEN conjunct1] r j2 by simp
  moreover have "path_dirname ''images_optimized'' = path_dirname ''images''
      \<and> \<not> inside ''images'' ''images_optimized''"
    using T [THEN conjunct2, THEN conjunct2, THEN conjunct2] g s n by simp
  ultimately show ?thesis using n by simp
qed

text \<open>
  C7. The scan is \<open>glob.sync\<close> with the pattern \<open>**/*.{jpg,jpeg,png,gif,svg}\<close> and no
  option but \<open>cwd\<close> and \<open>nodir\<close>. It compares letters as they are written and passes
  over names that start with \<open>.\<close>: a file \<open>PHOTO.JPG\<close>, a file \<open>.thumb.png\<close> and a
  file in a directory \<open>.cache\<close> have a recognized extension when case is ignored, and
  none of them is returned. What is returned, on the disk in memory: exactly the files
  under the root, at any depth, whose path has visible segments only and whose name ends
  with one of the five extensions in lower case. Every returned file has a recognized
  extension, and a file with another extension is never returned.
\<close>

theorem scan_case_sensitive_counterexample:
  "spec_recognized ''PHOTO.JPG'' \<and> \<not> glob_matches image_pattern ''PHOTO.JPG''
   \<and> spec_recognized ''.thumb.png'' \<and> \<not> glob_matches image_pattern ''.thumb.png''
   \<and> spec_recognized ''.cache/x.png'' \<and> \<not> glob_matches image_pattern ''.cache/x.png''
   \<and> disk_glob_sync
        \<lparr>directories = [''/app/public''],
         contents = [(''/app/public/PHOTO.JPG'', ''J''), (''/app/public/.thumb.png'', ''T''),
                     (''/app/public/.cache/x.png'', ''X''), (''/app/public/a.png'', ''A'')]\<rparr>
        image_pattern ''/app/public'' = [''a.png'']"
  by code_simp

theorem scan_returns:
  "(rel \<in> set (disk_glob_sync d image_pattern root) \<longleftrightarrow>
      map_of (contents d) (root @ ''/'' @ rel) \<noteq> None
      \<and> list_all visible (split_slash rel)
      \<and> list_ex (endsWith (last (split_slash rel))) recognized_extensions)
   \<and> (glob_matches image_pattern rel \<longrightarrow> path_extname rel \<in> set recognized_extensions)
   \<and> (path_extname rel \<notin> set recognized_extensions \<longrightarrow>
        rel \<notin> set (disk_glob_sync d image_pattern root))"
  using glob_matches_extname [of rel]
  by (auto simp: disk_glob_sync_iff glob_matches_iff)

theorem scan_returns_witness:
  "set (disk_glob_sync
        \<lparr>directories = [''/app/public''],
         contents = [(''/app/public/notes.txt'', ''N''), (''/app/public/a/b/c/deep.jpeg'', ''D''),
                     (''/app/public/logo.png'', ''L''), (''/app/elsewhere.png'', ''E'')]\<rparr>
        image_pattern ''/app/public'') = {''a/b/c/deep.jpeg'', ''logo.png''}
   \<and> path_extname ''a/b/c/deep.jpeg'' \<in> set recognized_extensions
   \<and> ''notes.txt'' \<notin> set (disk_glob_sync
        \<lparr>directories = [''/app/public''],
         contents = [(''/app/public/notes.txt'', ''N''), (''/app/public/a/b/c/deep.jpeg'', ''D''),
                     (''/app/public/logo.png'', ''L''), (''/app/elsewhere.png'', ''E'')]\<rparr>
        image_pattern ''/app/public'')"
proof -
  let ?d = "\<lparr>directories = [''/app/public''],
         contents = [(''/app/public/notes.txt'', ''N''), (''/app/public/a/b/c/deep.jpeg'', ''D''),
                     (''/app/public/logo.png'', ''L''), (''/app/elsewhere.png'', ''E'')]\<rparr>"
  have e: "path_extname ''notes.txt'' \<notin> set recognized_extensions" by code_simp
  have g: "glob_matches image_pattern ''a/b/c/deep.jpeg''" by code_simp
  have x: "path_extname ''a/b/c/deep.jpeg'' \<in> set recognized_extensions"
    using scan_returns [where rel = "''a/b/c/deep.jpeg''", THEN conjunct2, THEN conjunct1] g
    by blast
  have s: "set (disk_glob_sync ?d image_pattern ''/app/public'')
      = {''a/b/c/deep.jpeg'', ''logo.png''}" by code_simp
  have "''notes.txt'' \<notin> set (disk_glob_sync ?d image_pattern ''/app/public'')"
    using scan_returns [where rel = "''notes.txt''" and d = ?d and root = "''/app/public''",
        THEN conjunct2, THEN conjunct2] e by blast
  then show ?thesis using x s by simp
qed

text \<open>
  C8. Once \<open>main\<close> runs, the process ends with status 1 exactly when the scan root does
  not exist or an error leaves \<open>main\<close>, and with status 0 otherwise. A missing root
  ends the run before any prompt. A scan that finds no image ends the run with status 0,
  the world untouched and no prompt shown. A "no" at the confirmation ends it with
  status 0 and the world untouched. An error can leave \<open>main\<close> under the new-folder
  strategy only (the creation of a directory is the one call outside the \<open>try\<close>).
  Without the help flag the script is this run.
\<close>

theorem exit_status:
  "fst (main_catch env cwd ans w)
     = (if \<not> existsSync env w (publicDir_of cwd) \<or> throws (fst (main env cwd ans w))
        then 1 else 0)
   \<and> (\<not> existsSync env w (publicDir_of cwd) \<longrightarrow>
        main_catch env cwd ans w = (1, w, [Print_banner, Public_not_found])
        \<and> prompts_asked (snd (snd (main_catch env cwd ans w))) = [])
   \<and> (existsSync env w (publicDir_of cwd)
        \<and> glob_sync env w image_pattern (publicDir_of cwd) = [] \<longrightarrow>
        main_catch env cwd ans w
          = (0, w, [Print_banner, Found_public (publicDir_of cwd), No_images_found])
        \<and> prompts_asked (snd (snd (main_catch env cwd ans w))) = [])
   \<and> (existsSync env w (publicDir_of cwd)
        \<and> glob_sync env w image_pattern (publicDir_of cwd) \<noteq> []
        \<and> \<not> confirm ans \<longrightarrow>
        fst (main_catch env cwd ans w) = 0
        \<and> fst (snd (main_catch env cwd ans w)) = w)
   \<and> (throws (fst (main env cwd ans w)) \<longrightarrow>
        fst (main_catch env cwd ans w) = 1 \<and> strategy ans = new_folder)
   \<and> (''--help'' \<notin> set args \<and> ''-h'' \<notin> set args \<longrightarrow>
        optimize_js env args cwd ans w = main_catch env cwd ans w)"
proof (intro conjI impI)
  obtain r st where rb: "run_batch env (publicDir_of cwd) ans w
                (glob_sync env w image_pattern (publicDir_of cwd)) = (r, st)"
    by (metis surj_pair)
  show status: "fst (main_catch env cwd ans w)
        = (if \<not> existsSync env w (publicDir_of cwd) \<or> throws (fst (main env cwd ans w))
           then 1 else 0)"
    using rb unfolding main_catch_def main_cases
    by (cases r) (simp_all add: throws_def)
  {
    assume t: "throws (fst (main env cwd ans w))"
    then show "fst (main_catch env cwd ans w) = 1" using status by simp
    from t have "fst (run_batch env (publicDir_of cwd) ans w
              (glob_sync env w image_pattern (publicDir_of cwd))) \<noteq> None"
      by (simp add: throws_main)
    then have "strategy ans \<noteq> overwrite"
      using overwrite_never_throws by (metis run_batch_def)
    then show "strategy ans = new_folder" by (cases "strategy ans") auto
  }
next
  assume a: "\<not> existsSync env w (publicDir_of cwd)"
  then show m: "main_catch env cwd ans w = (1, w, [Print_banner, Public_not_found])"
    unfolding main_catch_def main_cases by simp
  show "prompts_asked (snd (snd (main_catch env cwd ans w))) = []"
    unfolding m by simp
next
  assume a: "existsSync env w (publicDir_of cwd)
        \<and> glob_sync env w image_pattern (publicDir_of cwd) = []"
  then show m: "main_catch env cwd ans w
          = (0, w, [Print_banner, Found_public (publicDir_of cwd), No_images_found])"
    unfolding main_catch_def main_cases by simp
  show "prompts_asked (snd (snd (main_catch env cwd ans w))) = []"
    unfolding m by simp
next
  assume a: "existsSync env w (publicDir_of cwd)
        \<and> glob_sync env w image_pattern (publicDir_of cwd) \<noteq> []
        \<and> \<not> confirm ans"
  then show "fst (main_catch env cwd ans w) = 0"
    unfolding main_catch_def main_cases by simp
  from a show "fst (snd (main_catch env cwd ans w)) = w"
    unfolding main_catch_def main_cases by simp
next
  assume "''--help'' \<notin> set args \<and> ''-h'' \<notin> set args"
  then show "optimize_js env args cwd ans w = main_catch env cwd ans w"
    by (simp add: optimize_js_def)
qed

theorem exit_status_witness:
  "fst (main_catch (disk_env toy_codec) ''/app''
       \<lparr>selectionMode = SelectAll, selectedDirs = [], files = [], strategy = new_folder,
        customSuffix = ''_optimized'', confirm = True\<rparr>
       \<lparr>directories = [], contents = []\<rparr>) = 1
   \<and> main_catch (disk_env toy_codec) ''/app''
       \<lparr>selectionMode = SelectAll, selectedDirs = [], files = [], strategy = new_folder,
        customSuffix = ''_optimized'', confirm = True\<rparr>
       \<lparr>directories = [''/app/public''], contents = []\<rparr>
     = (0, \<lparr>directories = [''/app/public''], contents = []\<rparr>,
        [Print_banner, Found_public ''/app/public'', No_images_found])
   \<and> fst (main_catch (disk_env toy_codec) ''/app''
       \<lparr>selectionMode = SelectAll, selectedDirs = [], files = [], strategy = new_folder,
        customSuffix = ''_optimized'', confirm = False\<rparr>
       \<lparr>directories = [''/app/public''], contents = [(''/app/public/logo.png'', ''L'')]\<rparr>) = 0
   \<and> fst (main_catch (disk_env toy_codec) ''/app''
       \<lparr>selectionMode = SelectAll, selectedDirs = [], files = [], strategy = new_folder,
        customSuffix = ''_optimized'', confirm = True\<rparr>
       \<lparr>directories = [''/app/public''],
        contents = [(''/app/public/logo.png'', ''L''), (''/app/public/_optimized'', ''F'')]\<rparr>) = 1
   \<and> fst (optimize_js (disk_env toy_codec) [] ''/app''
       \<lparr>selectionMode = SelectAll, selectedDirs = [], files = [], strategy = new_folder,
        customSuffix = ''_optimized'', confirm = True\<rparr>
       \<lparr>directories = [''/app/public''], contents = [(''/app/public/logo.png'', ''L'')]\<rparr>) = 0"
proof -
  let ?env = "disk_env toy_codec"
  let ?yes = "\<lparr>selectionMode = SelectAll, selectedDirs = [], files = [], strategy = new_folder,
        customSuffix = ''_optimized'', confirm = True\<rparr>"
  let ?no = "\<lparr>selectionMode = SelectAll, selectedDirs = [], files = [], strategy = new_folder,
        customSuffix = ''_optimized'', confirm = False\<rparr>"
  let ?missing = "\<lparr>directories = [], contents = []\<rparr>"
  let ?empty = "\<lparr>directories = [''/app/public''], contents = []\<rparr>"
  let ?one = "\<lparr>directories = [''/app/public''], contents = [(''/app/public/logo.png'', ''L'')]\<rparr>"
  let ?blocked = "\<lparr>directories = [''/app/public''],
        contents = [(''/app/public/logo.png'', ''L''), (''/app/public/_optimized'', ''F'')]\<rparr>"
  have p: "publicDir_of ''/app'' = ''/app/public''" by code_simp
  have m: "\<not> existsSync ?env ?missing (publicDir_of ''/app'')" by code_simp
  have e: "existsSync ?env ?empty (publicDir_of ''/app'')
      \<and> glob_sync ?env ?empty image_pattern (publicDir_of ''/app'') = []" by code_simp
  have c: "existsSync ?env ?one (publicDir_of ''/app'')
      \<and> glob_sync ?env ?one image_pattern (publicDir_of ''/app'') \<noteq> []
      \<and> \<not> confirm ?no" by code_simp
  have t: "throws (fst (main ?env ''/app'' ?yes ?blocked))" by code_simp
  have n: "existsSync ?env ?one (publicDir_of ''/app'')
      \<and> \<not> throws (fst (main ?env ''/app'' ?yes ?one))" by code_simp
  have "fst (main_catch ?env ''/app'' ?yes ?missing) = 1"
    using exit_status [where env = ?env and cwd = "''/app''" and ans = ?yes and w = ?missing,
        THEN conjunct2, THEN conjunct1] m by simp
  moreover have "main_catch ?env ''/app'' ?yes ?empty
      = (0, ?empty, [Print_banner, Found_public ''/app/public'', No_images_found])"
    using exit_status [where env = ?env and cwd = "''/app''" and ans = ?yes and w = ?empty,
        THEN conjunct2, THEN conjunct2, THEN conjunct1] e p by simp
  moreover have "fst (main_catch ?env ''/app'' ?no ?one) = 0"
    using exit_status [where env = ?env and cwd = "''/app''" and ans = ?no and w = ?one,
        THEN conjunct2, THEN conjunct2, THEN conjunct2, THEN conjunct1] c by blast
  moreover have "fst (main_catch ?env ''/app'' ?yes ?blocked) = 1"
    using exit_status [where env = ?env and cwd = "''/app''" and ans = ?yes and w = ?blocked,
        THEN conjunct1] t by simp
  moreover have "fst (optimize_js ?env [] ''/app'' ?yes ?one) = 0"
    using exit_status [where env = ?env and cwd = "''/app''" and ans = ?yes and w = ?one
        and args = "[]"] n by simp
  ultimately show ?thesis by blast
qed



text \<open>
  C1. The loop has no test on the extension of a file: a selected \<open>.svg\<close> file is
  handed to the conversion like any other and counted. Run on a disk whose only image is
  \<open>images/icon.svg\<close>, the program writes \<open>images/icon.webp\<close> and reports one file
  processed. The README of the repository says that SVG files are not converted.
\<close>

theorem svg_is_converted:
  "main_catch (disk_env toy_codec) ''/app''
       \<lparr>selectionMode = SelectAll, selectedDirs = [], files = [], strategy = overwrite,
        customSuffix = ''_optimized'', confirm = True\<rparr>
       \<lparr>directories = [''/app/public''],
        contents = [(''/app/public/images/icon.svg'', ''<svg/>'')]\<rparr>
     = (0,
        \<lparr>directories = [''/app/public''],
         contents = [(''/app/public/images/icon.svg'', ''<svg/>''),
                     (''/app/public/images/icon.webp'', ''webp:<svg/>'')]\<rparr>,
        [Print_banner, Found_public ''/app/public'', Found_images 1, Ask Prompt_selectionMode,
         Selected_count 1, Ask Prompt_strategy, Ask Prompt_confirm,
         Optimizing ''images/icon.svg'', Optimization_complete, Processed 1, Overwrite_note])"
  by code_simp




end
